theory Spec2Isabelle
  imports Complex_Main "HOL-Library.Word" "HOL-Library.Sublist"
begin

unbundle bit_operations_syntax

section \<open>Data model\<close>

text \<open>
  The sample data of a WAV file is a sequence of bytes (\<open>bytes\<close> / \<open>bytearray\<close>).
  A Python \<open>str\<close> is a sequence of Unicode code points; a character is modelled by its
  code point, so \<open>ord\<close> and \<open>chr\<close> are the identity. A string over the two characters
  \<open>'0'\<close> and \<open>'1'\<close> is modelled as a list of booleans, \<open>True\<close> standing for \<open>'1'\<close>.
\<close>

type_synonym byte = "8 word"
type_synonym pystr = "nat list"
type_synonym bitstr = "bool list"

text \<open>\<open>DELIMITER = '#####'\<close>; the code point of \<open>'#'\<close> is 35.\<close>

definition DELIMITER :: pystr where
  "DELIMITER = [35, 35, 35, 35, 35]"

text \<open>\<open>MAX_SEARCH_BYTES = 10000000\<close> (extract.py).\<close>

definition MAX_SEARCH_BYTES :: nat where
  "MAX_SEARCH_BYTES = 10000000"

text \<open>\<open>32 <= char_code <= 126 or char_code in [9, 10, 13]\<close>\<close>

definition in_alphabet :: "nat \<Rightarrow> bool" where
  "in_alphabet char_code \<longleftrightarrow>
     (32 \<le> char_code \<and> char_code \<le> 126) \<or> char_code \<in> set [9, 10, 13]"

text \<open>\<open>s.endswith(d)\<close> and \<open>s[:-n]\<close> of Python.\<close>

definition endswith :: "pystr \<Rightarrow> pystr \<Rightarrow> bool" where
  "endswith s d \<longleftrightarrow> length d \<le> length s \<and> drop (length s - length d) s = d"

definition drop_last :: "nat \<Rightarrow> pystr \<Rightarrow> pystr" where
  "drop_last n s = take (length s - n) s"

section \<open>Encoder (inject.py)\<close>

text \<open>
  \<open>format(n, 'b')\<close>: the binary digits of \<open>n\<close>, most significant first, no leading
  zero (\<open>'0'\<close> for 0). \<open>format(n, '08b')\<close> pads it on the left with \<open>'0'\<close> up to a
  minimum width of 8; a longer digit string is not shortened.
\<close>

fun format_b :: "nat \<Rightarrow> bitstr" where
  "format_b n = (if n < 2 then [odd n] else format_b (n div 2) @ [odd n])"

declare format_b.simps [simp del]

definition format_08b :: "nat \<Rightarrow> bitstr" where
  "format_08b n = replicate (8 - length (format_b n)) False @ format_b n"

text \<open>
  \<open>text_to_binary\<close>: \<open>binary = ''\<close>, then \<open>binary += format(ord(char), '08b')\<close> for each
  character of the text.
\<close>

fun text_to_binary_loop :: "bitstr \<Rightarrow> pystr \<Rightarrow> bitstr" where
  "text_to_binary_loop binary [] = binary"
| "text_to_binary_loop binary (char # text) =
     text_to_binary_loop (binary @ format_08b char) text"

definition text_to_binary :: "pystr \<Rightarrow> bitstr" where
  "text_to_binary text = text_to_binary_loop [] text"

text \<open>
  The injection loop \<open>for i, bit in enumerate(binary_message):
  frames[i] = (frames[i] & 0xFE) | int(bit)\<close>. It runs only after the capacity check, so
  every index it touches is within the buffer.
\<close>

fun inject_bits :: "byte list \<Rightarrow> nat \<Rightarrow> bitstr \<Rightarrow> byte list" where
  "inject_bits frames i [] = frames"
| "inject_bits frames i (b # bits) =
     inject_bits (frames[i := (frames ! i AND 0xFE) OR of_bool b]) (Suc i) bits"

text \<open>
  The encoder raises \<open>ValueError\<close> with the needed bits and the capacity when the message
  does not fit.
\<close>

datatype error = ValueError nat nat

record inject_stats =
  message_length :: nat
  bits_injected :: nat
  audio_capacity :: nat

text \<open>
  The state the encoder works on: \<open>wav_frames\<close>, the byte array \<open>frames\<close> read from the
  cover file, and \<open>wav_out\<close>, the sample data written to the output file (\<open>None\<close> as long
  as the output file has not been written).
\<close>

record vault =
  wav_frames :: "byte list"
  wav_out :: "byte list option"

text \<open>
  \<open>inject_payload\<close>, without its printing: the secret gets the delimiter appended and is
  converted to bits; the capacity is the number of sample bytes; the check raises before
  any byte is changed; otherwise the bits are injected and the buffer is written out. The
  percentages of the statistics are floating-point values and are left out.
\<close>

definition inject_payload :: "pystr \<Rightarrow> vault \<Rightarrow> (error + inject_stats) \<times> vault" where
  "inject_payload secret_message v =
    (let secret_with_delimiter = secret_message @ DELIMITER;
         binary_message = text_to_binary secret_with_delimiter;
         message_bits = length binary_message;
         capacity = length (wav_frames v)
     in if message_bits > capacity then (Inl (ValueError message_bits capacity), v)
        else
          let frames' = inject_bits (wav_frames v) 0 binary_message
          in (Inr \<lparr>message_length = length secret_message,
                    bits_injected = message_bits,
                    audio_capacity = capacity\<rparr>,
              v\<lparr>wav_frames := frames', wav_out := Some frames'\<rparr>))"

section \<open>Decoder (extract.py)\<close>

text \<open>\<open>int(s, 2)\<close> on a string of binary digits.\<close>

definition int_base2 :: "bitstr \<Rightarrow> nat" where
  "int_base2 s = foldl (\<lambda>v b. 2 * v + of_bool b) 0 s"

text \<open>
  The inner loop: \<open>for j in range(chunk_size): if i + j < len(frames):
  byte_chunk += str(frames[i + j] & 1)\<close>, with \<open>chunk_size = 8\<close>.
\<close>

definition chunk_size :: nat where
  "chunk_size = 8"

definition lsb_chunk :: "byte list \<Rightarrow> nat \<Rightarrow> bitstr" where
  "lsb_chunk frames i =
     concat (map (\<lambda>j. if i + j < length frames then [frames ! (i + j) AND 1 = 1] else [])
                 [0..<chunk_size])"

text \<open>
  The scan \<open>for i in range(0, max_search, chunk_size)\<close>, from index \<open>i\<close> on, with the text
  accumulated so far. It returns the text and \<open>delimiter_found\<close>; the \<open>break\<close> is the
  branch without a recursive call.
\<close>

function extract_loop :: "byte list \<Rightarrow> nat \<Rightarrow> nat \<Rightarrow> pystr \<Rightarrow> pystr \<times> bool" where
  "extract_loop frames max_search i extracted_text =
    (if i < max_search then
       (let byte_chunk = lsb_chunk frames i in
        if length byte_chunk = 8 then
          (let char_code = int_base2 byte_chunk in
           if in_alphabet char_code then
             (let extracted_text' = extracted_text @ [char_code] in
              if endswith extracted_text' DELIMITER
              then (drop_last (length DELIMITER) extracted_text', True)
              else extract_loop frames max_search (i + chunk_size) extracted_text')
           else extract_loop frames max_search (i + chunk_size) extracted_text)
        else extract_loop frames max_search (i + chunk_size) extracted_text)
     else (extracted_text, False))"
  by pat_completeness auto
termination
  by (relation "measure (\<lambda>(frames, max_search, i, t). max_search - i)")
     (auto simp: chunk_size_def)

declare extract_loop.simps [simp del]

record extract_stats =
  message_length :: nat
  delimiter_found :: bool
  message :: pystr

definition extract_payload :: "byte list \<Rightarrow> extract_stats" where
  "extract_payload frames =
    (let total_bytes = length frames;
         max_search = min total_bytes MAX_SEARCH_BYTES;
         (extracted_text, found) = extract_loop frames max_search 0 []
     in \<lparr>message_length = length extracted_text,
         delimiter_found = found,
         message = extracted_text\<rparr>)"

text \<open>
  \<open>binary_to_text\<close>: \<open>for i in range(0, len(binary), 8)\<close> with \<open>byte = binary[i:i+8]\<close>;
  only a slice of 8 digits whose value is in the alphabet adds a character.
\<close>

function binary_to_text_loop :: "bitstr \<Rightarrow> nat \<Rightarrow> pystr \<Rightarrow> pystr" where
  "binary_to_text_loop binary i text =
    (if i < length binary then
       (let byte = take 8 (drop i binary) in
        if length byte = 8 then
          (let char_code = int_base2 byte in
           if in_alphabet char_code
           then binary_to_text_loop binary (i + 8) (text @ [char_code])
           else binary_to_text_loop binary (i + 8) text)
        else binary_to_text_loop binary (i + 8) text)
     else text)"
  by pat_completeness auto
termination
  by (relation "measure (\<lambda>(binary, i, t). length binary - i)") auto

declare binary_to_text_loop.simps [simp del]

definition binary_to_text :: "bitstr \<Rightarrow> pystr" where
  "binary_to_text binary = binary_to_text_loop binary 0 []"

section \<open>Tone generator (generate\_tone.py)\<close>

text \<open>
  A Python float is a finite value, an infinity or a NaN. A finite float is modelled by the
  rational number it stands for (every finite float is one).
\<close>

datatype pyfloat = Finite rat | PosInf | NegInf | NaN

text \<open>
  The generator raises no exception of its own. It fails where the operations it calls
  fail: \<open>OverflowError\<close> (\<open>int\<close> of an infinity, an integer too large for a float),
  \<open>ValueError\<close> (\<open>int\<close> of a NaN, \<open>math.sin\<close> of an infinity), \<open>wave.Error\<close> (the WAV
  writer refuses a frame rate) and \<open>struct.error\<close> (\<open>struct.pack('<h', value)\<close> refuses a
  value outside the signed 16-bit range).
\<close>

datatype gen_error = OverflowError | FloatValueError | WaveError | StructError int

text \<open>
  \<open>int(x)\<close> on a float: truncation towards zero of a finite value, \<open>OverflowError\<close> on an
  infinity, \<open>ValueError\<close> on a NaN.
\<close>

definition py_int :: "pyfloat \<Rightarrow> gen_error + int" where
  "py_int x =
     (case x of
        Finite q \<Rightarrow> Inr (if 0 \<le> q then \<lfloor>q\<rfloor> else \<lceil>q\<rceil>)
      | PosInf \<Rightarrow> Inl OverflowError
      | NegInf \<Rightarrow> Inl OverflowError
      | NaN \<Rightarrow> Inl FloatValueError)"

text \<open>\<open>struct.pack('<h', value)\<close>: signed 16-bit, little-endian.\<close>

definition pack_h :: "int \<Rightarrow> gen_error + byte list" where
  "pack_h v =
     (if - 32768 \<le> v \<and> v \<le> 32767
      then Inr [word_of_int v, word_of_int (v div 256)]
      else Inl (StructError v))"

text \<open>
  The inner loop \<open>for i in range(samples_written, chunk_end): frames += struct.pack(...)\<close>
  over the indices of one chunk. \<open>tone i\<close> stands for the floating-point expression
  \<open>int(amplitude * math.sin(2 * math.pi * frequency * i / sample_rate))\<close>, which yields
  an integer or raises.
\<close>

fun pack_chunk ::
  "(int \<Rightarrow> gen_error + int) \<Rightarrow> byte list \<Rightarrow> int list \<Rightarrow> gen_error + byte list" where
  "pack_chunk tone chunk [] = Inr chunk"
| "pack_chunk tone chunk (i # is) =
     (case tone i of
        Inl e \<Rightarrow> Inl e
      | Inr v \<Rightarrow>
          (case pack_h v of
             Inl e \<Rightarrow> Inl e
           | Inr bs \<Rightarrow> pack_chunk tone (chunk @ bs) is))"

text \<open>
  The outer loop \<open>while samples_written < num_samples\<close>, in chunks of 1000 samples;
  \<open>written\<close> is the sample data handed to \<open>writeframes\<close> so far.
\<close>

function write_chunks ::
  "(int \<Rightarrow> gen_error + int) \<Rightarrow> int \<Rightarrow> int \<Rightarrow> byte list \<Rightarrow> gen_error + byte list" where
  "write_chunks tone num_samples samples_written written =
    (if samples_written < num_samples then
       (let chunk_end = min (samples_written + 1000) num_samples in
        case pack_chunk tone [] [samples_written..chunk_end - 1] of
          Inl e \<Rightarrow> Inl e
        | Inr chunk \<Rightarrow> write_chunks tone num_samples chunk_end (written @ chunk))
     else Inr written)"
  by pat_completeness auto
termination
  by (relation "measure (\<lambda>(tone, num_samples, samples_written, written).
                           nat (num_samples - samples_written))") auto

declare write_chunks.simps [simp del]

record gen_stats =
  samples :: int
  file_size :: int
  stego_capacity_bits :: int
  stego_capacity_chars :: int

text \<open>
  \<open>generate_wav\<close>, without its printing, in the order of the code:
  \<open>num_samples = int(sample_rate * duration)\<close> comes first and can raise; then the WAV
  writer is set up, where \<open>setframerate\<close> can refuse the rate; then the samples are
  written; then the statistics are computed. Two operations are not part of the
  repository and are parameters: \<open>float_mul\<close>, the product \<open>sample_rate * duration\<close> of an
  integer and a float (with its rounding and its overflow), and \<open>rate_ok\<close>, the check of
  \<open>setframerate\<close>. There is no check of the duration or of the sample rate in the function
  itself.
\<close>

definition generate_wav ::
  "(int \<Rightarrow> pyfloat \<Rightarrow> gen_error + pyfloat) \<Rightarrow> (int \<Rightarrow> bool) \<Rightarrow> (int \<Rightarrow> gen_error + int) \<Rightarrow>
   pyfloat \<Rightarrow> int \<Rightarrow> gen_error + byte list \<times> gen_stats" where
  "generate_wav float_mul rate_ok tone duration sample_rate =
    (case float_mul sample_rate duration of
       Inl e \<Rightarrow> Inl e
     | Inr product \<Rightarrow>
         (case py_int product of
            Inl e \<Rightarrow> Inl e
          | Inr num_samples \<Rightarrow>
              if \<not> rate_ok sample_rate then Inl WaveError
              else
                (case write_chunks tone num_samples 0 [] of
                   Inl e \<Rightarrow> Inl e
                 | Inr written \<Rightarrow>
                     Inr (written,
                          \<lparr>samples = num_samples,
                           file_size = num_samples * 2 + 44,
                           stego_capacity_bits = num_samples * 2,
                           stego_capacity_chars = (num_samples * 2) div 8\<rparr>))))"


section \<open>Auxiliary notions for the proofs\<close>

text \<open>The string of least significant bits of a buffer, one digit per byte.\<close>

definition lsb_string :: "byte list \<Rightarrow> bitstr" where
  "lsb_string frames = map (\<lambda>b. b AND 1 = 1) frames"

text \<open>The text of a digit string, group by group: \<open>binary_to_text\<close> as a recursion on the string.\<close>

function chunk_text :: "bitstr \<Rightarrow> pystr" where
  "chunk_text bs =
    (if length bs < 8 then []
     else (if in_alphabet (int_base2 (take 8 bs)) then [int_base2 (take 8 bs)] else [])
          @ chunk_text (drop 8 bs))"
  by pat_completeness auto
termination
  by (relation "measure length") auto

declare chunk_text.simps [simp del]

text \<open>
  The decoder's treatment of a stream of characters: append one after the other, stop and
  strip as soon as the text ends with the delimiter.
\<close>

fun scan_text :: "pystr \<Rightarrow> pystr \<Rightarrow> pystr \<times> bool" where
  "scan_text t [] = (t, False)"
| "scan_text t (c # cs) =
     (if endswith (t @ [c]) DELIMITER
      then (drop_last (length DELIMITER) (t @ [c]), True)
      else scan_text (t @ [c]) cs)"

text \<open>
  The text that the scan region of a buffer holds: the characters of all its complete
  groups of 8 least significant bits, those outside the alphabet left out.
\<close>

definition reconstructed_text :: "byte list \<Rightarrow> pystr" where
  "reconstructed_text frames =
     binary_to_text (lsb_string (take (min (length frames) MAX_SEARCH_BYTES) frames))"

text \<open>A buffer with given least significant bits: one byte, 0 or 1, for each digit.\<close>

definition frames_of_bits :: "bitstr \<Rightarrow> byte list" where
  "frames_of_bits bits = map of_bool bits"

section \<open>Lemmas\<close>

subsection \<open>Binary digits\<close>

lemma int_base2_snoc: "int_base2 (xs @ [b]) = 2 * int_base2 xs + of_bool b"
  by (simp add: int_base2_def)

lemma int_base2_False_Cons: "int_base2 (False # xs) = int_base2 xs"
  by (simp add: int_base2_def)

lemma int_base2_pad: "int_base2 (replicate k False @ xs) = int_base2 xs"
  by (induction k) (simp_all add: int_base2_False_Cons)

lemma int_base2_format_b: "int_base2 (format_b n) = n"
proof (induction n rule: format_b.induct)
  case (1 n)
  show ?case
  proof (cases "n < 2")
    case True
    then have "n = 0 \<or> n = 1" by arith
    then show ?thesis
      by (auto simp: format_b.simps [of 0] format_b.simps [of 1] format_b.simps [of "Suc 0"] int_base2_def)
  next
    case False
    with 1 have "int_base2 (format_b (n div 2)) = n div 2" by simp
    with False show ?thesis
      by (subst format_b.simps) (simp add: int_base2_snoc)
  qed
qed

lemma int_base2_format_08b: "int_base2 (format_08b n) = n"
  by (simp add: format_08b_def int_base2_pad int_base2_format_b)

lemma length_format_b_le: "0 < k \<Longrightarrow> n < 2 ^ k \<Longrightarrow> length (format_b n) \<le> k"
proof (induction n arbitrary: k rule: format_b.induct)
  case (1 n)
  show ?case
  proof (cases "n < 2")
    case True
    with 1(2) show ?thesis by (subst format_b.simps) simp
  next
    case False
    have "k \<noteq> Suc 0"
      using 1(3) False by auto
    with 1(2) obtain k' where k: "k = Suc k'" "0 < k'"
      by (cases k) auto
    with 1(3) have "n div 2 < 2 ^ k'" by auto
    with 1(1) False k have "length (format_b (n div 2)) \<le> k'" by simp
    with False k show ?thesis by (subst format_b.simps) simp
  qed
qed

lemma length_format_b_gt: "2 ^ k \<le> n \<Longrightarrow> k < length (format_b n)"
proof (induction n arbitrary: k rule: format_b.induct)
  case (1 n)
  show ?case
  proof (cases "n < 2")
    case True
    have "k = 0"
    proof (rule ccontr)
      assume "k \<noteq> 0"
      then have "(2::nat) ^ 1 \<le> 2 ^ k"
        by (intro power_increasing) auto
      with True 1(2) show False by simp
    qed
    with True show ?thesis by (subst format_b.simps) simp
  next
    case False
    show ?thesis
    proof (cases k)
      case 0
      with False show ?thesis by (subst format_b.simps) simp
    next
      case (Suc k')
      with 1(2) have "2 ^ k' \<le> n div 2" by auto
      with 1(1) False have "k' < length (format_b (n div 2))" by simp
      with False Suc show ?thesis by (subst format_b.simps) simp
    qed
  qed
qed

lemma length_format_08b: "length (format_08b n) = (if n < 256 then 8 else length (format_b n))"
proof (cases "n < 256")
  case True
  then have "length (format_b n) \<le> 8"
    using length_format_b_le [of 8 n] by simp
  with True show ?thesis by (simp add: format_08b_def)
next
  case False
  then have "8 < length (format_b n)"
    using length_format_b_gt [of 8 n] by simp
  with False show ?thesis by (simp add: format_08b_def)
qed

lemma length_format_08b_ge: "8 \<le> length (format_08b n)"
  by (simp add: format_08b_def)

lemma length_format_08b_wide: "256 \<le> n \<Longrightarrow> 8 < length (format_08b n)"
  using length_format_b_gt [of 8 n] by (simp add: length_format_08b)

lemma text_to_binary_loop_eq:
  "text_to_binary_loop binary s = binary @ concat (map format_08b s)"
  by (induction s arbitrary: binary) simp_all

lemma text_to_binary_concat: "text_to_binary text = concat (map format_08b text)"
  by (simp add: text_to_binary_def text_to_binary_loop_eq)

lemma text_to_binary_append:
  "text_to_binary (s @ t) = text_to_binary s @ text_to_binary t"
  by (simp add: text_to_binary_concat)

lemma length_text_to_binary:
  "\<forall>c\<in>set s. c < 256 \<Longrightarrow> length (text_to_binary s) = 8 * length s"
  by (induction s) (simp_all add: text_to_binary_concat length_format_08b)

lemma length_text_to_binary_ge: "8 * length s \<le> length (text_to_binary s)"
proof (induction s)
  case Nil
  show ?case by (simp add: text_to_binary_concat)
next
  case (Cons c s)
  then show ?case
    using length_format_08b_ge [of c] by (simp add: text_to_binary_concat)
qed

lemma in_alphabet_lt_256: "in_alphabet c \<Longrightarrow> c < 256"
  by (auto simp: in_alphabet_def)

lemma in_alphabet_DELIMITER: "\<forall>c\<in>set DELIMITER. in_alphabet c"
  by (simp add: DELIMITER_def in_alphabet_def)

lemma length_DELIMITER: "length DELIMITER = 5"
  by (simp add: DELIMITER_def)

subsection \<open>Injection\<close>

lemma length_inject_bits: "length (inject_bits frames i bits) = length frames"
  by (induction bits arbitrary: frames i) simp_all

lemma inject_bits_nth:
  "i + length bits \<le> length frames \<Longrightarrow> k < length frames \<Longrightarrow>
   inject_bits frames i bits ! k =
     (if i \<le> k \<and> k < i + length bits
      then (frames ! k AND 0xFE) OR of_bool (bits ! (k - i))
      else frames ! k)"
proof (induction bits arbitrary: frames i)
  case Nil
  then show ?case by auto
next
  case (Cons b bits)
  let ?fr = "frames[i := (frames ! i AND 0xFE) OR of_bool b]"
  from Cons.prems have "Suc i + length bits \<le> length ?fr" "k < length ?fr"
    by simp_all
  from Cons.IH [OF this]
  have "inject_bits ?fr (Suc i) bits ! k =
          (if Suc i \<le> k \<and> k < Suc i + length bits
           then (?fr ! k AND 0xFE) OR of_bool (bits ! (k - Suc i))
           else ?fr ! k)" .
  with Cons.prems show ?case
    by (cases "k = i") (auto simp: nth_Cons' Suc_diff_Suc)
qed

lemma lsb_embed: "(((w :: byte) AND 0xFE) OR of_bool b) AND 1 = 1 \<longleftrightarrow> b"
proof -
  have "((w AND 0xFE) OR of_bool b) AND 1 = (of_bool b :: byte)"
    by (rule bit_eqI) (auto simp: bit_simps)
  then show ?thesis by simp
qed

lemma lsb_string_inject_bits:
  assumes "length bits \<le> length frames"
  shows "lsb_string (inject_bits frames 0 bits) = bits @ lsb_string (drop (length bits) frames)"
proof (rule nth_equalityI)
  show "length (lsb_string (inject_bits frames 0 bits)) =
        length (bits @ lsb_string (drop (length bits) frames))"
    using assms by (simp add: lsb_string_def length_inject_bits)
next
  fix k assume "k < length (lsb_string (inject_bits frames 0 bits))"
  then have k: "k < length frames"
    by (simp add: lsb_string_def length_inject_bits)
  with assms show "lsb_string (inject_bits frames 0 bits) ! k =
        (bits @ lsb_string (drop (length bits) frames)) ! k"
    by (auto simp: lsb_string_def length_inject_bits inject_bits_nth lsb_embed nth_append)
qed

lemma drop_inject_bits:
  assumes "length bits \<le> length frames"
  shows "drop (length bits) (inject_bits frames 0 bits) = drop (length bits) frames"
  using assms
  by (intro nth_equalityI) (simp_all add: length_inject_bits inject_bits_nth)

subsection \<open>The decoder as a scan of the text of the LSB string\<close>

lemma concat_map_if_singleton:
  "concat (map (\<lambda>j. if P j then [f j] else []) xs) = map f (filter P xs)"
  by (induction xs) simp_all

lemma filter_less_upt: "filter (\<lambda>j. j < m) [0..<k] = [0..<min k m]"
proof (induction k)
  case 0
  show ?case by simp
next
  case (Suc k)
  show ?case
  proof (cases "k < m")
    case True
    with Suc show ?thesis by (simp add: min_absorb1)
  next
    case False
    with Suc show ?thesis by (simp add: min_absorb2)
  qed
qed

lemma lsb_chunk_eq: "lsb_chunk frames i = take 8 (drop i (lsb_string frames))"
proof -
  have f: "filter (\<lambda>j. i + j < length frames) [0..<8] = [0..<min 8 (length frames - i)]"
    using filter_less_upt [of "length frames - i" 8]
    by (simp add: less_diff_conv add.commute)
  show ?thesis
    unfolding lsb_chunk_def chunk_size_def concat_map_if_singleton f
    by (rule nth_equalityI) (auto simp: lsb_string_def)
qed

lemma length_lsb_chunk: "length (lsb_chunk frames i) = min 8 (length frames - i)"
  by (simp add: lsb_chunk_eq lsb_string_def)

lemma binary_to_text_loop_eq:
  "binary_to_text_loop bs i t = t @ chunk_text (drop i bs)"
proof (induction bs i t rule: binary_to_text_loop.induct)
  case (1 bs i t)
  show ?case
  proof (cases "i < length bs")
    case False
    then show ?thesis
      by (subst binary_to_text_loop.simps, subst chunk_text.simps) simp
  next
    case True
    show ?thesis
    proof (cases "i + 8 \<le> length bs")
      case full: True
      then have len: "length (take 8 (drop i bs)) = 8" by simp
      have d: "drop 8 (drop i bs) = drop (i + 8) bs" by (simp add: add.commute)
      show ?thesis
      proof (cases "in_alphabet (int_base2 (take 8 (drop i bs)))")
        case a: True
        with 1(1) True len
        have "binary_to_text_loop bs (i + 8) (t @ [int_base2 (take 8 (drop i bs))]) =
              (t @ [int_base2 (take 8 (drop i bs))]) @ chunk_text (drop (i + 8) bs)"
          by simp
        with True len a full d show ?thesis
          by (subst binary_to_text_loop.simps, subst chunk_text.simps) simp
      next
        case a: False
        with 1(2) True len
        have "binary_to_text_loop bs (i + 8) t = t @ chunk_text (drop (i + 8) bs)"
          by simp
        with True len a full d show ?thesis
          by (subst binary_to_text_loop.simps, subst chunk_text.simps) simp
      qed
    next
      case part: False
      then have len: "length (take 8 (drop i bs)) \<noteq> 8" by simp
      with 1(3) True
      have "binary_to_text_loop bs (i + 8) t = t @ chunk_text (drop (i + 8) bs)"
        by simp
      moreover from part have "chunk_text (drop (i + 8) bs) = []"
        by (subst chunk_text.simps) simp
      moreover from part have "chunk_text (drop i bs) = []"
        by (subst chunk_text.simps) simp
      ultimately show ?thesis
        using True part by (subst binary_to_text_loop.simps) auto
    qed
  qed
qed

lemma binary_to_text_chunk_text: "binary_to_text bs = chunk_text bs"
  by (simp add: binary_to_text_def binary_to_text_loop_eq)

lemma binary_to_text_short: "length bs < 8 \<Longrightarrow> binary_to_text bs = []"
  by (simp add: binary_to_text_chunk_text chunk_text.simps)

lemma binary_to_text_step:
  "8 \<le> length bs \<Longrightarrow>
   binary_to_text bs =
     (if in_alphabet (int_base2 (take 8 bs)) then [int_base2 (take 8 bs)] else [])
     @ binary_to_text (drop 8 bs)"
  by (simp add: binary_to_text_chunk_text chunk_text.simps [of bs])

lemma extract_loop_scan:
  assumes "m = length frames \<or> (8 dvd m \<and> 8 dvd i \<and> m \<le> length frames)"
  shows "extract_loop frames m i t =
         scan_text t (binary_to_text (drop i (take m (lsb_string frames))))"
  using assms
proof (induction frames m i t rule: extract_loop.induct)
  case (1 frames m i t)
  let ?L = "lsb_string frames"
  have lenL: "length ?L = length frames" by (simp add: lsb_string_def)
  from 1(4) have m: "m \<le> length frames" by auto
  from 1(4) have inv: "m = length frames \<or> (8 dvd m \<and> 8 dvd (i + chunk_size) \<and> m \<le> length frames)"
    by (auto simp: chunk_size_def)
  show ?case
  proof (cases "i < m")
    case False
    then have "length (drop i (take m ?L)) < 8" by simp
    with False show ?thesis
      by (subst extract_loop.simps) (simp add: binary_to_text_short)
  next
    case True
    show ?thesis
    proof (cases "i + 8 \<le> m")
      case part: False
      with 1(4) True have "\<not> i + 8 \<le> length frames"
        by (auto elim!: dvdE)
      then have len: "length (lsb_chunk frames i) \<noteq> 8"
        by (simp add: length_lsb_chunk)
      with 1(3) True inv
      have "extract_loop frames m (i + chunk_size) t =
            scan_text t (binary_to_text (drop (i + chunk_size) (take m ?L)))"
        by simp
      moreover from part have "binary_to_text (drop (i + chunk_size) (take m ?L)) = []"
        by (intro binary_to_text_short) (simp add: chunk_size_def)
      moreover from part have "binary_to_text (drop i (take m ?L)) = []"
        by (intro binary_to_text_short) simp
      ultimately show ?thesis
        using True len by (subst extract_loop.simps) simp
    next
      case full: True
      with m have len: "length (lsb_chunk frames i) = 8"
        by (simp add: length_lsb_chunk)
      from full have ch: "take 8 (drop i (take m ?L)) = lsb_chunk frames i"
        by (simp add: lsb_chunk_eq take_drop min_def)
      have d: "drop 8 (drop i (take m ?L)) = drop (i + chunk_size) (take m ?L)"
        by (simp add: chunk_size_def add.commute)
      from full m lenL have "8 \<le> length (drop i (take m ?L))" by simp
      note st = binary_to_text_step [OF this, unfolded ch d]
      let ?c = "int_base2 (lsb_chunk frames i)"
      show ?thesis
      proof (cases "in_alphabet ?c")
        case na: False
        with 1(2) True len inv
        have "extract_loop frames m (i + chunk_size) t =
              scan_text t (binary_to_text (drop (i + chunk_size) (take m ?L)))"
          by simp
        with True len na st show ?thesis
          by (subst extract_loop.simps) simp
      next
        case a: True
        show ?thesis
        proof (cases "endswith (t @ [?c]) DELIMITER")
          case e: True
          with True len a st show ?thesis
            by (subst extract_loop.simps) simp
        next
          case e: False
          with 1(1) True len a inv
          have "extract_loop frames m (i + chunk_size) (t @ [?c]) =
                scan_text (t @ [?c]) (binary_to_text (drop (i + chunk_size) (take m ?L)))"
            by simp
          with True len a e st show ?thesis
            by (subst extract_loop.simps) simp
        qed
      qed
    qed
  qed
qed

lemma dvd_MAX_SEARCH_BYTES: "8 dvd MAX_SEARCH_BYTES"
  by (simp add: MAX_SEARCH_BYTES_def)

lemma extract_payload_scan:
  "extract_payload frames =
     (let (t, found) =
        scan_text [] (binary_to_text (lsb_string (take (min (length frames) MAX_SEARCH_BYTES) frames)))
      in \<lparr>message_length = length t, delimiter_found = found, message = t\<rparr>)"
proof -
  let ?m = "min (length frames) MAX_SEARCH_BYTES"
  have "?m = length frames \<or> (8 dvd ?m \<and> 8 dvd (0::nat) \<and> ?m \<le> length frames)"
    using dvd_MAX_SEARCH_BYTES by (auto simp: min_def)
  from extract_loop_scan [OF this, of "[]"]
  show ?thesis
    by (simp add: extract_payload_def lsb_string_def take_map)
qed

subsection \<open>Scanning a stream of characters for the delimiter\<close>

lemma endswith_suffix: "endswith s d \<longleftrightarrow> suffix d s"
proof
  assume "endswith s d"
  then have "s = take (length s - length d) s @ d"
    by (metis append_take_drop_id endswith_def)
  then show "suffix d s" by (rule suffixI)
next
  assume "suffix d s"
  then obtain zs where "s = zs @ d" by (auto simp: suffix_def)
  then show "endswith s d" by (simp add: endswith_def)
qed

lemma drop_last_append: "drop_last (length d) (p @ d) = p"
  by (simp add: drop_last_def)

lemma butlast_DELIMITER: "DELIMITER = butlast DELIMITER @ [35]"
  by (simp add: DELIMITER_def)

lemma butlast_DELIMITER_snoc: "butlast DELIMITER @ 35 # s = DELIMITER @ s"
  by (simp add: DELIMITER_def)

lemma suffix_sublist_append: "suffix d u \<Longrightarrow> sublist d (u @ xs)"
  by (auto simp: suffix_def)

lemma scan_text_skip:
  "\<not> sublist DELIMITER (t @ xs) \<Longrightarrow> scan_text t (xs @ ys) = scan_text (t @ xs) ys"
proof (induction xs arbitrary: t)
  case Nil
  show ?case by simp
next
  case (Cons c xs)
  have "\<not> endswith (t @ [c]) DELIMITER"
  proof
    assume "endswith (t @ [c]) DELIMITER"
    then have "suffix DELIMITER (t @ [c])"
      using endswith_suffix by blast
    then have "sublist DELIMITER ((t @ [c]) @ xs)"
      by (rule suffix_sublist_append)
    with Cons.prems show False by simp
  qed
  moreover from Cons.prems have "\<not> sublist DELIMITER ((t @ [c]) @ xs)" by simp
  then have "scan_text (t @ [c]) (xs @ ys) = scan_text ((t @ [c]) @ xs) ys"
    by (rule Cons.IH)
  ultimately show ?case by simp
qed

lemma scan_text_not_found:
  "\<not> sublist DELIMITER cs \<Longrightarrow> scan_text [] cs = (cs, False)"
  using scan_text_skip [of "[]" cs "[]"] by simp

lemma scan_text_found:
  assumes "\<not> sublist DELIMITER (p @ butlast DELIMITER)"
  shows "scan_text [] (p @ DELIMITER @ s) = (p, True)"
proof -
  let ?xs = "p @ butlast DELIMITER"
  have "scan_text [] (?xs @ (35 # s)) = scan_text ([] @ ?xs) (35 # s)"
    using assms by (intro scan_text_skip) simp
  then have "scan_text [] (p @ DELIMITER @ s) = scan_text ?xs (35 # s)"
    by (simp add: butlast_DELIMITER_snoc)
  also have "\<dots> = (p, True)"
  proof -
    have "endswith (p @ DELIMITER) DELIMITER"
      by (simp add: endswith_def)
    moreover have "butlast DELIMITER @ [35] = DELIMITER"
      by (simp add: DELIMITER_def)
    ultimately show ?thesis
      by (simp add: drop_last_append)
  qed
  finally show ?thesis .
qed

lemma scan_text_found_sublist:
  "snd (scan_text t cs) \<Longrightarrow> sublist DELIMITER (t @ cs)"
proof (induction cs arbitrary: t)
  case Nil
  then show ?case by simp
next
  case (Cons c cs)
  show ?case
  proof (cases "endswith (t @ [c]) DELIMITER")
    case True
    then have "suffix DELIMITER (t @ [c])" using endswith_suffix by blast
    then have "sublist DELIMITER ((t @ [c]) @ cs)"
      by (rule suffix_sublist_append)
    then show ?thesis by simp
  next
    case False
    with Cons.prems have "snd (scan_text (t @ [c]) cs)" by simp
    from Cons.IH [OF this] show ?thesis by simp
  qed
qed

lemma scan_text_prefix:
  "scan_text t cs = (r, f) \<Longrightarrow> prefix (r @ (if f then DELIMITER else [])) (t @ cs)"
proof (induction cs arbitrary: t)
  case Nil
  then show ?case by auto
next
  case (Cons c cs)
  show ?case
  proof (cases "endswith (t @ [c]) DELIMITER")
    case True
    then have "suffix DELIMITER (t @ [c])" using endswith_suffix by blast
    then obtain zs where zs: "t @ [c] = zs @ DELIMITER"
      by (rule suffixE)
    with True Cons.prems have "r = zs" "f"
      by (simp_all add: drop_last_append)
    with zs have "(r @ (if f then DELIMITER else [])) @ cs = t @ c # cs" by simp
    then show ?thesis by (metis prefixI)
  next
    case False
    with Cons.prems have "scan_text (t @ [c]) cs = (r, f)" by simp
    from Cons.IH [OF this] show ?thesis by simp
  qed
qed

lemma scan_text_no_delimiter:
  "\<not> sublist DELIMITER t \<Longrightarrow> \<not> sublist DELIMITER (fst (scan_text t cs))"
proof (induction cs arbitrary: t)
  case Nil
  then show ?case by simp
next
  case (Cons c cs)
  show ?case
  proof (cases "endswith (t @ [c]) DELIMITER")
    case True
    then have "suffix DELIMITER (t @ [c])" using endswith_suffix by blast
    then obtain zs where zs: "t @ [c] = zs @ DELIMITER"
      by (rule suffixE)
    then have "t = zs @ butlast DELIMITER"
      by (subst (asm) butlast_DELIMITER) simp
    with Cons.prems have "\<not> sublist DELIMITER zs"
      by (auto simp: sublist_append)
    with True zs show ?thesis by (simp add: drop_last_append)
  next
    case False
    then have "\<not> suffix DELIMITER (t @ [c])" using endswith_suffix by blast
    with Cons.prems have "\<not> sublist DELIMITER (t @ [c])"
      using sublist_snoc [of DELIMITER t c] by blast
    from Cons.IH [OF this] False show ?thesis by simp
  qed
qed

lemma scan_text_set: "set (fst (scan_text t cs)) \<subseteq> set t \<union> set cs"
proof -
  obtain r f where rf: "scan_text t cs = (r, f)" by (cases "scan_text t cs")
  from scan_text_prefix [OF this] have "prefix r (t @ cs)"
    by (auto dest: append_prefixD)
  then have "set r \<subseteq> set (t @ cs)" by (rule set_mono_prefix)
  with rf show ?thesis by simp
qed

text \<open>The first occurrence of the delimiter in a text that contains it.\<close>

lemma first_occurrence:
  "sublist DELIMITER cs \<Longrightarrow>
   \<exists>p s. cs = p @ DELIMITER @ s \<and> \<not> sublist DELIMITER (p @ butlast DELIMITER)"
proof (induction cs)
  case Nil
  then show ?case by (simp add: DELIMITER_def)
next
  case (Cons x cs)
  show ?case
  proof (cases "prefix DELIMITER (x # cs)")
    case True
    then obtain s where "x # cs = [] @ DELIMITER @ s" by (auto simp: prefix_def)
    moreover have "\<not> sublist DELIMITER ([] @ butlast DELIMITER)"
      by (auto dest!: sublist_length_le simp: DELIMITER_def)
    ultimately show ?thesis by blast
  next
    case False
    with Cons.prems have "sublist DELIMITER cs" by (simp add: sublist_Cons_right)
    from Cons.IH [OF this] obtain p s where
      ps: "cs = p @ DELIMITER @ s" "\<not> sublist DELIMITER (p @ butlast DELIMITER)" by blast
    have "\<not> prefix DELIMITER (x # p @ butlast DELIMITER)"
    proof
      assume "prefix DELIMITER (x # p @ butlast DELIMITER)"
      moreover have "prefix (x # p @ butlast DELIMITER) (x # cs)"
        unfolding ps(1) by (subst (2) butlast_DELIMITER) simp
      ultimately have "prefix DELIMITER (x # cs)" by (rule prefix_order.trans)
      with False show False ..
    qed
    with ps(2) have "\<not> sublist DELIMITER ((x # p) @ butlast DELIMITER)"
      by (simp add: sublist_Cons_right)
    moreover from ps(1) have "x # cs = (x # p) @ DELIMITER @ s" by simp
    ultimately show ?thesis by blast
  qed
qed

lemma scan_text_found_iff: "snd (scan_text [] cs) \<longleftrightarrow> sublist DELIMITER cs"
proof
  assume "snd (scan_text [] cs)"
  from scan_text_found_sublist [OF this] show "sublist DELIMITER cs" by simp
next
  assume "sublist DELIMITER cs"
  from first_occurrence [OF this] obtain p s where
    "cs = p @ DELIMITER @ s" "\<not> sublist DELIMITER (p @ butlast DELIMITER)" by blast
  then show "snd (scan_text [] cs)" by (simp add: scan_text_found)
qed

text \<open>
  A payload that neither contains the delimiter nor ends with \<open>'#'\<close> brings no
  occurrence of the delimiter that ends before the appended one does.
\<close>

lemma no_early_delimiter:
  assumes "\<not> sublist DELIMITER p" and "p = [] \<or> last p \<noteq> 35"
  shows "\<not> sublist DELIMITER (p @ butlast DELIMITER)"
proof
  assume "sublist DELIMITER (p @ butlast DELIMITER)"
  moreover have "\<not> sublist DELIMITER (butlast DELIMITER)"
    by (auto dest!: sublist_length_le simp: DELIMITER_def)
  ultimately obtain xs1 xs2 where
    x: "DELIMITER = xs1 @ xs2" "suffix xs1 p" "prefix xs2 (butlast DELIMITER)"
    using assms(1) by (auto simp: sublist_append)
  from x(3) have "length xs2 \<le> 4"
    by (auto dest!: prefix_length_le simp: DELIMITER_def)
  with x(1) have ne: "xs1 \<noteq> []"
    by (auto simp: DELIMITER_def)
  from x(1) have "set xs1 \<subseteq> {35}"
    by (metis DELIMITER_def Un_upper1 set_append empty_set insert_absorb2 list.simps(15))
  with ne have "last xs1 = 35"
    using last_in_set by blast
  moreover from x(2) ne have "p \<noteq> []" "last p = last xs1"
    by (auto simp: suffix_def)
  ultimately show False using assms(2) by simp
qed

lemma early_delimiter:
  assumes "sublist DELIMITER p \<or> (p \<noteq> [] \<and> last p = 35)"
  shows "sublist DELIMITER (p @ butlast DELIMITER)"
  using assms
proof
  assume "sublist DELIMITER p"
  then show ?thesis by (auto simp: sublist_append)
next
  assume "p \<noteq> [] \<and> last p = 35"
  then have "p = butlast p @ [35]"
    by (metis append_butlast_last_id)
  then have "p @ butlast DELIMITER = butlast p @ DELIMITER @ []"
    by (metis DELIMITER_def append_Cons append_Nil append_assoc butlast.simps(2) butlast_snoc butlast_DELIMITER append_Nil2 list.distinct(1))
  then show ?thesis by (metis sublist_appendI)
qed

subsection \<open>The text of an encoded bit string\<close>

lemma in_alphabet_chunk_text: "c \<in> set (chunk_text bs) \<Longrightarrow> in_alphabet c"
proof (induction bs rule: chunk_text.induct)
  case (1 bs)
  show ?case
  proof (cases "length bs < 8")
    case True
    with 1(2) show ?thesis by (simp add: chunk_text.simps [of bs])
  next
    case False
    with 1 show ?thesis
      by (auto simp: chunk_text.simps [of bs] split: if_splits)
  qed
qed

lemma in_alphabet_binary_to_text: "c \<in> set (binary_to_text bs) \<Longrightarrow> in_alphabet c"
  by (simp add: binary_to_text_chunk_text in_alphabet_chunk_text)

lemma binary_to_text_format_08b:
  assumes "c < 256"
  shows "binary_to_text (format_08b c @ rest) =
         (if in_alphabet c then [c] else []) @ binary_to_text rest"
proof -
  from assms have len: "length (format_08b c) = 8" by (simp add: length_format_08b)
  then have "8 \<le> length (format_08b c @ rest)" by simp
  from binary_to_text_step [OF this] len show ?thesis
    by (simp add: int_base2_format_08b)
qed

lemma binary_to_text_text_to_binary:
  "\<forall>c\<in>set cs. in_alphabet c \<Longrightarrow>
   binary_to_text (text_to_binary cs @ rest) = cs @ binary_to_text rest"
proof (induction cs)
  case Nil
  show ?case by (simp add: text_to_binary_concat)
next
  case (Cons c cs)
  then have "c < 256" "in_alphabet c" by (simp_all add: in_alphabet_lt_256)
  with Cons show ?case
    using binary_to_text_format_08b [of c "text_to_binary cs @ rest"]
    by (simp add: text_to_binary_concat)
qed

lemma lsb_string_frames_of_bits: "lsb_string (frames_of_bits bits) = bits"
  by (simp add: lsb_string_def frames_of_bits_def o_def)

lemma reconstructed_text_frames_of_bits:
  assumes "\<forall>c\<in>set cs. in_alphabet c" and "8 * length cs \<le> MAX_SEARCH_BYTES"
  shows "reconstructed_text (frames_of_bits (text_to_binary cs)) = cs"
proof -
  from assms(1) have "\<forall>c\<in>set cs. c < 256" by (simp add: in_alphabet_lt_256)
  then have len: "length (frames_of_bits (text_to_binary cs)) = 8 * length cs"
    by (simp add: frames_of_bits_def length_text_to_binary)
  have "binary_to_text (text_to_binary cs @ []) = cs @ binary_to_text []"
    using assms(1) by (rule binary_to_text_text_to_binary)
  with len assms(2) show ?thesis
    by (simp add: reconstructed_text_def lsb_string_frames_of_bits binary_to_text_short)
qed

lemma extract_payload_reconstructed:
  "extract_payload frames =
     (let (t, found) = scan_text [] (reconstructed_text frames)
      in \<lparr>message_length = length t, delimiter_found = found, message = t\<rparr>)"
  by (simp add: extract_payload_scan reconstructed_text_def)

lemma DELIMITER_not_Nil: "\<not> sublist DELIMITER []"
  by (simp add: DELIMITER_def)

subsection \<open>Encoding, then decoding\<close>

lemma extract_payload_first_delimiter:
  assumes "reconstructed_text frames = p @ DELIMITER @ s"
      and "\<not> sublist DELIMITER (p @ butlast DELIMITER)"
  shows "extract_payload frames =
           \<lparr>message_length = length p, delimiter_found = True, message = p\<rparr>"
  using scan_text_found [OF assms(2), of s] assms(1)
  by (simp add: extract_payload_reconstructed)

lemma not_sublist_butlast_DELIMITER: "\<not> sublist DELIMITER (butlast DELIMITER)"
  by (auto dest!: sublist_length_le simp: DELIMITER_def)

lemma reconstructed_text_inject_bits:
  assumes alpha: "\<forall>c\<in>set payload. in_alphabet c"
      and cap: "8 * (length payload + 5) \<le> length cover"
      and lim: "8 * (length payload + 5) \<le> MAX_SEARCH_BYTES"
  shows "\<exists>rest. reconstructed_text (inject_bits cover 0 (text_to_binary (payload @ DELIMITER)))
                  = payload @ DELIMITER @ rest"
proof -
  let ?bits = "text_to_binary (payload @ DELIMITER)"
  let ?stego = "inject_bits cover 0 ?bits"
  let ?M = "min (length ?stego) MAX_SEARCH_BYTES"
  from alpha have a: "\<forall>c\<in>set (payload @ DELIMITER). in_alphabet c"
    using in_alphabet_DELIMITER by auto
  then have "\<forall>c\<in>set (payload @ DELIMITER). c < 256"
    by (blast intro: in_alphabet_lt_256)
  then have n: "length ?bits = 8 * (length payload + 5)"
    by (simp add: length_text_to_binary length_DELIMITER)
  with cap have fit: "length ?bits \<le> length cover" by simp
  from n cap lim have M: "length ?bits \<le> ?M"
    by (simp add: length_inject_bits)
  have "lsb_string (take ?M ?stego) = take ?M (lsb_string ?stego)"
    by (simp add: lsb_string_def take_map)
  also have "\<dots> = take ?M (?bits @ lsb_string (drop (length ?bits) cover))"
    by (simp only: lsb_string_inject_bits [OF fit])
  also from M have "\<dots> = ?bits @ take (?M - length ?bits) (lsb_string (drop (length ?bits) cover))"
    by simp
  finally have "reconstructed_text ?stego =
      binary_to_text (?bits @ take (?M - length ?bits) (lsb_string (drop (length ?bits) cover)))"
    by (simp only: reconstructed_text_def)
  with binary_to_text_text_to_binary [OF a] show ?thesis by simp
qed

lemma inject_payload_accepts:
  assumes "length (text_to_binary (secret @ DELIMITER)) \<le> length (wav_frames v)"
  shows "inject_payload secret v =
     (Inr \<lparr>inject_stats.message_length = length secret,
           bits_injected = length (text_to_binary (secret @ DELIMITER)),
           audio_capacity = length (wav_frames v)\<rparr>,
      v\<lparr>wav_frames := inject_bits (wav_frames v) 0 (text_to_binary (secret @ DELIMITER)),
        wav_out := Some (inject_bits (wav_frames v) 0 (text_to_binary (secret @ DELIMITER)))\<rparr>)"
  using assms by (simp add: inject_payload_def Let_def)

lemma inject_payload_rejects:
  assumes "length (wav_frames v) < length (text_to_binary (secret @ DELIMITER))"
  shows "inject_payload secret v =
     (Inl (ValueError (length (text_to_binary (secret @ DELIMITER))) (length (wav_frames v))), v)"
  using assms by (simp add: inject_payload_def Let_def)

lemma length_bitstream:
  "\<forall>c\<in>set secret. c < 256 \<Longrightarrow>
   length (text_to_binary (secret @ DELIMITER)) = 8 * (length secret + 5)"
proof -
  assume "\<forall>c\<in>set secret. c < 256"
  moreover have "\<forall>c\<in>set DELIMITER. c < 256" by (simp add: DELIMITER_def)
  ultimately have "\<forall>c\<in>set (secret @ DELIMITER). c < 256" by auto
  then show ?thesis by (simp add: length_text_to_binary length_DELIMITER)
qed

lemma two_delimiters_text:
  "reconstructed_text
     (frames_of_bits (text_to_binary [97, 35, 35, 35, 35, 35, 98, 35, 35, 35, 35, 35])) =
   [97] @ DELIMITER @ [98, 35, 35, 35, 35, 35]"
proof -
  have "reconstructed_text
     (frames_of_bits (text_to_binary [97, 35, 35, 35, 35, 35, 98, 35, 35, 35, 35, 35])) =
     [97, 35, 35, 35, 35, 35, 98, 35, 35, 35, 35, 35]"
    by (rule reconstructed_text_frames_of_bits)
       (simp_all add: in_alphabet_def MAX_SEARCH_BYTES_def)
  then show ?thesis by (simp add: DELIMITER_def)
qed

lemma two_delimiters_first: "\<not> sublist DELIMITER ([97] @ butlast DELIMITER)"
  by (rule no_early_delimiter) (auto dest!: sublist_length_le simp: DELIMITER_def)

subsection \<open>Capacity and frame\<close>

lemma inject_payload_frame:
  assumes "inject_payload payload v = (Inr st, v')"
  shows "length (wav_frames v') = length (wav_frames v)"
    and "drop (length (text_to_binary (payload @ DELIMITER))) (wav_frames v') =
         drop (length (text_to_binary (payload @ DELIMITER))) (wav_frames v)"
    and "wav_out v' = Some (wav_frames v')"
proof -
  let ?bits = "text_to_binary (payload @ DELIMITER)"
  from assms have fit: "length ?bits \<le> length (wav_frames v)"
    by (auto simp: inject_payload_def Let_def split: if_splits)
  from assms inject_payload_accepts [OF fit]
  have v': "v' = v\<lparr>wav_frames := inject_bits (wav_frames v) 0 ?bits,
                   wav_out := Some (inject_bits (wav_frames v) 0 ?bits)\<rparr>"
    by simp
  show "length (wav_frames v') = length (wav_frames v)"
    by (simp add: v' length_inject_bits)
  show "drop (length ?bits) (wav_frames v') = drop (length ?bits) (wav_frames v)"
    by (simp add: v' drop_inject_bits [OF fit])
  show "wav_out v' = Some (wav_frames v')"
    by (simp add: v')
qed

lemma inject_payload_embeds:
  assumes "inject_payload payload v = (Inr st, v')"
      and "i < length (text_to_binary (payload @ DELIMITER))"
  shows "wav_frames v' ! i =
         (wav_frames v ! i AND 0xFE) OR of_bool (text_to_binary (payload @ DELIMITER) ! i)"
proof -
  let ?bits = "text_to_binary (payload @ DELIMITER)"
  from assms(1) have fit: "length ?bits \<le> length (wav_frames v)"
    by (auto simp: inject_payload_def Let_def split: if_splits)
  from assms(1) inject_payload_accepts [OF fit]
  have v': "wav_frames v' = inject_bits (wav_frames v) 0 ?bits"
    by auto
  from fit assms(2) show ?thesis
    by (simp add: v' inject_bits_nth)
qed

lemma text_to_binary_256: "text_to_binary [256] = [True, False, False, False, False, False, False, False, False]"
  by (simp add: text_to_binary_def format_08b_def format_b.simps)

lemma length_bitstream_256: "length (text_to_binary ([256] @ DELIMITER)) = 49"
proof -
  have "length (text_to_binary DELIMITER) = 40"
    using length_bitstream [of "[]"] by simp
  then show ?thesis
    by (simp only: text_to_binary_append text_to_binary_256 length_append) simp
qed

lemma format_08b_35: "format_08b 35 = [False, False, True, False, False, False, True, True]"
proof -
  have "format_b 35 = [True, False, False, False, True, True]"
    by (simp add: format_b.simps)
  then show ?thesis
    by (simp add: format_08b_def numeral_2_eq_2)
qed

lemma last_bit_256: "text_to_binary ([256] @ DELIMITER) ! 48 = True"
proof -
  have "text_to_binary ([256] @ DELIMITER) = text_to_binary [256] @ text_to_binary DELIMITER"
    by (rule text_to_binary_append)
  moreover have "length (text_to_binary [256]) = 9" by (simp add: text_to_binary_256)
  moreover have "text_to_binary DELIMITER ! 39 = True"
    by (simp add: text_to_binary_concat DELIMITER_def format_08b_35)
  ultimately show ?thesis by (simp add: nth_append)
qed

subsection \<open>Groups of 8 bits\<close>

lemma binary_to_text_Nil: "binary_to_text [] = []"
  by (simp add: binary_to_text_short)

lemma binary_to_text_append:
  "8 dvd length xs \<Longrightarrow> binary_to_text (xs @ ys) = binary_to_text xs @ binary_to_text ys"
proof (induction xs rule: chunk_text.induct)
  case (1 xs)
  show ?case
  proof (cases "length xs < 8")
    case True
    with 1(2) have "xs = []" by (auto elim!: dvdE)
    then show ?thesis by (simp add: binary_to_text_Nil)
  next
    case False
    with 1(2) have "8 dvd length (drop 8 xs)" by (simp add: dvd_diff_nat)
    with 1(1) False
    have IH: "binary_to_text (drop 8 xs @ ys) = binary_to_text (drop 8 xs) @ binary_to_text ys"
      by simp
    from False have "8 \<le> length (xs @ ys)" "8 \<le> length xs" by simp_all
    from binary_to_text_step [OF this(1)] binary_to_text_step [OF this(2)] False IH
    show ?thesis by simp
  qed
qed

lemma binary_to_text_groups:
  "binary_to_text bs = binary_to_text (take (8 * (length bs div 8)) bs)"
proof -
  let ?k = "8 * (length bs div 8)"
  have k: "?k \<le> length bs" by simp
  then have "8 dvd length (take ?k bs)" by (simp add: min_absorb2)
  then have "binary_to_text (take ?k bs @ drop ?k bs) =
             binary_to_text (take ?k bs) @ binary_to_text (drop ?k bs)"
    by (rule binary_to_text_append)
  moreover have "length (drop ?k bs) < 8"
    by (simp add: minus_mult_div_eq_mod)
  then have "binary_to_text (drop ?k bs) = []" by (rule binary_to_text_short)
  ultimately show ?thesis by simp
qed

lemma binary_to_text_take_prefix:
  assumes "8 dvd k"
  shows "prefix (binary_to_text (take k bs)) (binary_to_text bs)"
proof (cases "k \<le> length bs")
  case True
  with assms have "8 dvd length (take k bs)" by (simp add: min_absorb2)
  then have "binary_to_text (take k bs @ drop k bs) =
             binary_to_text (take k bs) @ binary_to_text (drop k bs)"
    by (rule binary_to_text_append)
  then show ?thesis by (simp add: prefix_def)
next
  case False
  then show ?thesis by simp
qed

lemma reconstructed_text_groups:
  "reconstructed_text frames =
     binary_to_text (lsb_string (take (8 * (min (length frames) MAX_SEARCH_BYTES div 8)) frames))"
proof -
  let ?M = "min (length frames) MAX_SEARCH_BYTES"
  let ?L = "lsb_string (take ?M frames)"
  have len: "length ?L = ?M" by (simp add: lsb_string_def)
  have "8 * (?M div 8) \<le> ?M" by (rule times_div_less_eq_dividend)
  then have "take (8 * (?M div 8)) ?L = lsb_string (take (8 * (?M div 8)) frames)"
    by (simp add: lsb_string_def take_map [symmetric] min_absorb1 del: take_map)
  with binary_to_text_groups [of ?L] len show ?thesis
    by (simp add: reconstructed_text_def)
qed

lemma reconstructed_text_take:
  "reconstructed_text (take (8 * (min (length frames) MAX_SEARCH_BYTES div 8)) frames) =
   reconstructed_text frames"
proof -
  let ?M = "min (length frames) MAX_SEARCH_BYTES"
  let ?k = "8 * (?M div 8)"
  have k: "?k \<le> ?M" by (rule times_div_less_eq_dividend)
  then have "min (length (take ?k frames)) MAX_SEARCH_BYTES = ?k" by simp
  then have "reconstructed_text (take ?k frames) = binary_to_text (lsb_string (take ?k frames))"
    by (simp add: reconstructed_text_def)
  then show ?thesis by (simp only: reconstructed_text_groups [of frames])
qed

lemma reconstructed_text_take_MAX:
  "reconstructed_text (take MAX_SEARCH_BYTES frames) = reconstructed_text frames"
  by (simp add: reconstructed_text_def min.commute min.left_commute)

lemma reconstructed_text_prefix:
  "prefix (reconstructed_text frames) (binary_to_text (lsb_string frames))"
proof (cases "length frames \<le> MAX_SEARCH_BYTES")
  case True
  then show ?thesis by (simp add: reconstructed_text_def)
next
  case False
  then have "reconstructed_text frames =
             binary_to_text (take MAX_SEARCH_BYTES (lsb_string frames))"
    by (simp add: reconstructed_text_def lsb_string_def take_map)
  with binary_to_text_take_prefix [OF dvd_MAX_SEARCH_BYTES] show ?thesis by simp
qed

lemma extract_payload_cong:
  "reconstructed_text frames' = reconstructed_text frames \<Longrightarrow>
   extract_payload frames' = extract_payload frames"
  by (simp add: extract_payload_reconstructed)

lemma binary_to_text_zeros: "binary_to_text (replicate n False) = []"
proof (induction n rule: less_induct)
  case (less n)
  show ?case
  proof (cases "n < 8")
    case True
    then show ?thesis by (simp add: binary_to_text_short)
  next
    case False
    then have "binary_to_text (replicate (n - 8) False) = []"
      by (intro less.IH) simp
    moreover from False have "take 8 (replicate n False) = replicate 8 False @ []"
      by (simp add: min_absorb1)
    then have "int_base2 (take 8 (replicate n False)) = 0"
      by (simp only: int_base2_pad) (simp add: int_base2_def)
    moreover have "\<not> in_alphabet 0" by (simp add: in_alphabet_def)
    ultimately show ?thesis
      using False binary_to_text_step [of "replicate n False"] by simp
  qed
qed

subsection \<open>The text as the filtered sequence of group values\<close>

lemma upt_0_Suc: "[0..<Suc n] = 0 # map Suc [0..<n]"
  by (simp add: upt_conv_Cons map_Suc_upt del: upt_Suc)

lemma binary_to_text_filter:
  "binary_to_text bs =
     filter in_alphabet (map (\<lambda>k. int_base2 (take 8 (drop (8 * k) bs))) [0..<length bs div 8])"
proof (induction bs rule: chunk_text.induct)
  case (1 bs)
  show ?case
  proof (cases "length bs < 8")
    case True
    then show ?thesis by (simp add: binary_to_text_short)
  next
    case False
    then have "length bs div 8 = Suc ((length bs - 8) div 8)"
      by (simp add: le_div_geq)
    then have n: "length bs div 8 = Suc (length (drop 8 bs) div 8)"
      by simp
    from 1 False
    have IH: "binary_to_text (drop 8 bs) =
        filter in_alphabet
          (map (\<lambda>k. int_base2 (take 8 (drop (8 * k) (drop 8 bs)))) [0..<length (drop 8 bs) div 8])"
      by simp
    have "map (\<lambda>k. int_base2 (take 8 (drop (8 * k) bs))) [0..<length bs div 8] =
          int_base2 (take 8 bs) #
          map (\<lambda>k. int_base2 (take 8 (drop (8 * k) (drop 8 bs)))) [0..<length (drop 8 bs) div 8]"
      unfolding n upt_0_Suc
      by (simp add: o_def add.commute)
    with IH False binary_to_text_step [of bs] show ?thesis by simp
  qed
qed

lemma take_drop_take: "a + n \<le> m \<Longrightarrow> take n (drop a (take m xs)) = take n (drop a xs)"
  by (simp add: drop_take min_absorb1)

lemma lsb_string_take: "lsb_string (take m frames) = take m (lsb_string frames)"
  by (simp add: lsb_string_def take_map)

lemma reconstructed_text_filter:
  "reconstructed_text frames =
     filter in_alphabet
       (map (\<lambda>k. int_base2 (lsb_chunk frames (8 * k)))
            [0..<min (length frames) MAX_SEARCH_BYTES div 8])"
proof -
  let ?M = "min (length frames) MAX_SEARCH_BYTES"
  let ?L = "lsb_string (take ?M frames)"
  have len: "length ?L = ?M" by (simp add: lsb_string_def)
  have "map (\<lambda>k. int_base2 (take 8 (drop (8 * k) ?L))) [0..<?M div 8] =
        map (\<lambda>k. int_base2 (lsb_chunk frames (8 * k))) [0..<?M div 8]"
  proof (rule map_cong [OF refl])
    fix k assume "k \<in> set [0..<?M div 8]"
    then have "k < ?M div 8" by simp
    then have "8 * Suc k \<le> 8 * (?M div 8)"
      by (intro mult_le_mono2) simp
    also have "\<dots> \<le> ?M" by (rule times_div_less_eq_dividend)
    finally have "8 * k + 8 \<le> ?M" by simp
    then have "take 8 (drop (8 * k) ?L) = lsb_chunk frames (8 * k)"
      by (simp only: lsb_string_take lsb_chunk_eq take_drop_take)
    then show "int_base2 (take 8 (drop (8 * k) ?L)) = int_base2 (lsb_chunk frames (8 * k))"
      by simp
  qed
  with binary_to_text_filter [of ?L] len show ?thesis
    by (simp add: reconstructed_text_def)
qed

lemma extract_loop_group:
  assumes "i < max_search" and "i + 8 \<le> length frames"
  shows "extract_loop frames max_search i t =
     (let char_code = int_base2 (lsb_chunk frames i) in
      if in_alphabet char_code then
        (if endswith (t @ [char_code]) DELIMITER
         then (drop_last (length DELIMITER) (t @ [char_code]), True)
         else extract_loop frames max_search (i + 8) (t @ [char_code]))
      else extract_loop frames max_search (i + 8) t)"
proof -
  from assms(2) have "length (lsb_chunk frames i) = 8"
    by (simp add: length_lsb_chunk)
  with assms(1) show ?thesis
    by (subst extract_loop.simps) (simp add: chunk_size_def Let_def)
qed

lemma message_prefix_reconstructed:
  "prefix (message (extract_payload frames)) (reconstructed_text frames)"
proof -
  obtain r f where rf: "scan_text [] (reconstructed_text frames) = (r, f)"
    by (cases "scan_text [] (reconstructed_text frames)")
  from scan_text_prefix [OF this] have "prefix r (reconstructed_text frames)"
    by (auto dest: append_prefixD)
  with rf show ?thesis by (simp add: extract_payload_reconstructed)
qed

lemma message_not_found:
  assumes "\<not> delimiter_found (extract_payload frames)"
  shows "message (extract_payload frames) = reconstructed_text frames"
proof -
  from assms have "\<not> snd (scan_text [] (reconstructed_text frames))"
    by (simp add: extract_payload_reconstructed split: prod.splits)
  then have "\<not> sublist DELIMITER (reconstructed_text frames)"
    by (simp add: scan_text_found_iff)
  then have "scan_text [] (reconstructed_text frames) = (reconstructed_text frames, False)"
    by (rule scan_text_not_found)
  then show ?thesis by (simp add: extract_payload_reconstructed)
qed

lemma nul_then_H_text:
  "reconstructed_text (frames_of_bits (replicate 8 False @ text_to_binary [72])) = [72]"
proof -
  let ?bits = "replicate 8 False @ text_to_binary [72]"
  have len: "length (text_to_binary [72]) = 8"
    using length_text_to_binary [of "[72]"] by simp
  have "binary_to_text ?bits = binary_to_text (replicate 8 False) @ binary_to_text (text_to_binary [72] @ [])"
    using binary_to_text_append [of "replicate 8 False" "text_to_binary [72]"] by simp
  also have "binary_to_text (text_to_binary [72] @ []) = [72] @ binary_to_text []"
    by (rule binary_to_text_text_to_binary) (simp add: in_alphabet_def)
  finally have "binary_to_text ?bits = [72]"
    by (simp add: binary_to_text_zeros binary_to_text_Nil)
  moreover from len have "length (frames_of_bits ?bits) = 16"
    by (simp add: frames_of_bits_def)
  then have "take (min (length (frames_of_bits ?bits)) MAX_SEARCH_BYTES) (frames_of_bits ?bits) =
             frames_of_bits ?bits"
    by (simp add: MAX_SEARCH_BYTES_def)
  ultimately show ?thesis
    by (simp only: reconstructed_text_def lsb_string_frames_of_bits)
qed

subsection \<open>The generator\<close>





text \<open>
  A product that overflows to an infinity, such as \<open>44100 * -1e308\<close>, fails in \<open>int\<close>
  before the WAV writer is reached, whatever the sample rate.
\<close>

lemma generate_wav_overflow:
  assumes "float_mul sample_rate duration = Inr NegInf \<or> float_mul sample_rate duration = Inr PosInf"
  shows "generate_wav float_mul rate_ok tone duration sample_rate = Inl OverflowError"
  using assms by (auto simp: generate_wav_def py_int_def)

lemma generate_wav_int_fails:
  assumes "float_mul sample_rate duration = Inr product" and "py_int product = Inl e"
  shows "generate_wav float_mul rate_ok tone duration sample_rate = Inl e"
  using assms by (simp add: generate_wav_def)

subsection \<open>A bitstream longer than the scan region\<close>

lemma take_text_to_binary:
  "\<forall>c\<in>set cs. c < 256 \<Longrightarrow> take (8 * k) (text_to_binary cs) = text_to_binary (take k cs)"
proof (induction cs arbitrary: k)
  case Nil
  show ?case by (simp add: text_to_binary_concat)
next
  case (Cons c cs)
  show ?case
  proof (cases k)
    case 0
    then show ?thesis by (simp add: text_to_binary_concat)
  next
    case (Suc k')
    from Cons.prems have "length (format_08b c) = 8" by (simp add: length_format_08b)
    moreover from Cons have "take (8 * k') (text_to_binary cs) = text_to_binary (take k' cs)"
      by simp
    ultimately show ?thesis
      using Suc by (simp add: text_to_binary_concat)
  qed
qed

lemma take_snoc_le: "k \<le> length xs \<Longrightarrow> take k (xs @ [y]) = take k xs"
  by simp

lemma scan_limit_cuts_bitstream:
  assumes alpha: "\<forall>c\<in>set payload. in_alphabet c"
      and cap: "8 * (length payload + 5) \<le> length cover"
      and lim: "MAX_SEARCH_BYTES < 8 * (length payload + 5)"
      and nd: "\<not> sublist DELIMITER payload"
      and nl: "payload = [] \<or> last payload \<noteq> 35"
  shows "\<not> delimiter_found
            (extract_payload (inject_bits cover 0 (text_to_binary (payload @ DELIMITER))))"
proof -
  let ?cs = "payload @ DELIMITER"
  let ?bits = "text_to_binary ?cs"
  let ?stego = "inject_bits cover 0 ?bits"
  let ?k = "MAX_SEARCH_BYTES div 8"
  from alpha have a: "\<forall>c\<in>set ?cs. in_alphabet c"
    using in_alphabet_DELIMITER by auto
  then have lt: "\<forall>c\<in>set ?cs. c < 256" by (blast intro: in_alphabet_lt_256)
  then have n: "length ?bits = 8 * (length payload + 5)"
    by (simp add: length_text_to_binary length_DELIMITER)
  with cap have fit: "length ?bits \<le> length cover" by simp
  have M8: "MAX_SEARCH_BYTES = 8 * ?k" by (simp add: MAX_SEARCH_BYTES_def)
  from cap lim have M: "min (length ?stego) MAX_SEARCH_BYTES = MAX_SEARCH_BYTES"
    by (simp add: length_inject_bits)
  have "lsb_string (take MAX_SEARCH_BYTES ?stego) = take MAX_SEARCH_BYTES (lsb_string ?stego)"
    by (rule lsb_string_take)
  also have "\<dots> = take MAX_SEARCH_BYTES (?bits @ lsb_string (drop (length ?bits) cover))"
    by (simp only: lsb_string_inject_bits [OF fit])
  also from lim n have "\<dots> = take MAX_SEARCH_BYTES ?bits" by simp
  also have "\<dots> = text_to_binary (take ?k ?cs)"
    by (subst M8) (rule take_text_to_binary [OF lt])
  finally have "reconstructed_text ?stego = binary_to_text (text_to_binary (take ?k ?cs) @ [])"
    by (simp add: reconstructed_text_def M)
  also have "\<dots> = take ?k ?cs @ binary_to_text []"
    using a by (intro binary_to_text_text_to_binary) (auto dest: in_set_takeD)
  finally have R: "reconstructed_text ?stego = take ?k ?cs"
    by (simp add: binary_to_text_Nil)
  from lim M8 have "?k \<le> length (payload @ butlast DELIMITER)"
    by (simp add: DELIMITER_def)
  then have "take ?k ((payload @ butlast DELIMITER) @ [35]) = take ?k (payload @ butlast DELIMITER)"
    by (rule take_snoc_le)
  moreover have "(payload @ butlast DELIMITER) @ [35] = ?cs"
    by (simp add: DELIMITER_def)
  ultimately have "take ?k ?cs = take ?k (payload @ butlast DELIMITER)"
    by (simp only:)
  then have "sublist (take ?k ?cs) (payload @ butlast DELIMITER)"
    by (simp only: sublist_take)
  moreover from nd nl have "\<not> sublist DELIMITER (payload @ butlast DELIMITER)"
    by (rule no_early_delimiter)
  ultimately have "\<not> sublist DELIMITER (reconstructed_text ?stego)"
    unfolding R by (blast intro: sublist_order.order.trans)
  then have "scan_text [] (reconstructed_text ?stego) = (reconstructed_text ?stego, False)"
    by (rule scan_text_not_found)
  then show ?thesis by (simp add: extract_payload_reconstructed)
qed

subsection \<open>Capacity check and frame, on the bitstream as produced\<close>

text \<open>
  The check and the injection loop work on the bits that \<open>text_to_binary\<close> produced: the
  encoder accepts exactly when they fit, and leaves every byte from their number on as it
  was.
\<close>

lemma capacity_check_bitstream:
  "(length (text_to_binary (secret @ DELIMITER)) \<le> length (wav_frames v) \<longrightarrow>
      (\<exists>st v'. inject_payload secret v = (Inr st, v'))) \<and>
   (length (wav_frames v) < length (text_to_binary (secret @ DELIMITER)) \<longrightarrow>
      inject_payload secret v =
        (Inl (ValueError (length (text_to_binary (secret @ DELIMITER))) (length (wav_frames v))), v)) \<and>
   ((\<forall>c\<in>set secret. c < 256) \<longrightarrow>
      length (text_to_binary (secret @ DELIMITER)) = 8 * (length secret + 5))"
  using inject_payload_accepts [of secret v] inject_payload_rejects [of v secret]
        length_bitstream [of secret]
  by simp

lemma frame_beyond_bitstream:
  assumes "inject_payload payload v = (Inr st, v')"
  shows "length (wav_frames v') = length (wav_frames v) \<and>
         (\<forall>i. length (text_to_binary (payload @ DELIMITER)) \<le> i \<and> i < length (wav_frames v) \<longrightarrow>
              wav_frames v' ! i = wav_frames v ! i) \<and>
         ((\<forall>c\<in>set payload. c < 256) \<longrightarrow>
            length (text_to_binary (payload @ DELIMITER)) = 8 * (length payload + 5))"
proof -
  let ?n = "length (text_to_binary (payload @ DELIMITER))"
  note fr = inject_payload_frame [OF assms]
  have "wav_frames v' ! i = wav_frames v ! i" if "?n \<le> i" "i < length (wav_frames v)" for i
  proof -
    from that fr(1) have "wav_frames v' ! i = drop ?n (wav_frames v') ! (i - ?n)"
      by simp
    also have "\<dots> = drop ?n (wav_frames v) ! (i - ?n)"
      by (simp only: fr(2))
    also from that have "\<dots> = wav_frames v ! i" by simp
    finally show ?thesis .
  qed
  with fr(1) length_bitstream [of payload] show ?thesis by blast
qed

text \<open>
  For a text whose code points are all below 256 the bitstream has \<open>8 * (len + 5)\<close> bits,
  and the capacity check and the frame condition hold as the specification states them.
\<close>

lemma capacity_check_below_256:
  assumes "\<forall>c\<in>set secret. c < 256"
  shows "(8 * (length secret + 5) \<le> length (wav_frames v) \<longrightarrow>
            (\<exists>st v'. inject_payload secret v = (Inr st, v'))) \<and>
         (length (wav_frames v) < 8 * (length secret + 5) \<longrightarrow>
            inject_payload secret v =
              (Inl (ValueError (8 * (length secret + 5)) (length (wav_frames v))), v))"
  using capacity_check_bitstream [of secret v] assms by simp

lemma frame_below_256:
  assumes "inject_payload payload v = (Inr st, v')"
      and "\<forall>c\<in>set payload. c < 256"
      and "8 * (length payload + 5) \<le> i" and "i < length (wav_frames v)"
  shows "wav_frames v' ! i = wav_frames v ! i"
  using frame_beyond_bitstream [OF assms(1)] assms(2-4) by simp

section \<open>Claims\<close>

text \<open>
  Claim C1, amended. For every payload over the alphabet that neither contains the
  delimiter nor ends with \<open>'#'\<close>, whose bitstream of \<open>8 * (len(payload) + 5)\<close> bits fits
  both the cover buffer and the decoder's scan limit, encoding succeeds and decoding the
  buffer it produces yields the payload with \<open>delimiter_found\<close> true. (Beyond the scan
  limit the delimiter is not found: lemma \<open>scan_limit_cuts_bitstream\<close>.)
\<close>

theorem roundtrip_law:
  assumes "\<forall>c\<in>set payload. in_alphabet c"
      and "8 * (length payload + 5) \<le> length (wav_frames v)"
      and "8 * (length payload + 5) \<le> MAX_SEARCH_BYTES"
      and "\<not> sublist DELIMITER payload"
      and "payload = [] \<or> last payload \<noteq> 35"
  shows "\<exists>st buf. inject_payload payload v = (Inr st, v\<lparr>wav_frames := buf, wav_out := Some buf\<rparr>) \<and>
           extract_payload buf =
             \<lparr>message_length = length payload, delimiter_found = True, message = payload\<rparr>"
proof -
  let ?bits = "text_to_binary (payload @ DELIMITER)"
  let ?buf = "inject_bits (wav_frames v) 0 ?bits"
  from assms(1) have "\<forall>c\<in>set payload. c < 256"
    by (blast intro: in_alphabet_lt_256)
  then have "length ?bits = 8 * (length payload + 5)" by (rule length_bitstream)
  with assms(2) have "length ?bits \<le> length (wav_frames v)" by simp
  note acc = inject_payload_accepts [OF this]
  from reconstructed_text_inject_bits [OF assms(1-3)] obtain rest where
    "reconstructed_text ?buf = payload @ DELIMITER @ rest" by blast
  moreover from assms(4,5) have "\<not> sublist DELIMITER (payload @ butlast DELIMITER)"
    by (rule no_early_delimiter)
  ultimately have "extract_payload ?buf =
      \<lparr>message_length = length payload, delimiter_found = True, message = payload\<rparr>"
    by (rule extract_payload_first_delimiter)
  with acc show ?thesis by blast
qed

text \<open>The scenario of the specification: the payload \<open>'HI'\<close> in a cover of 1000 zero bytes.\<close>

theorem roundtrip_law_witness:
  "list_all in_alphabet [72, 73] \<and>
   8 * (length [72, 73 :: nat] + 5) \<le> length (wav_frames \<lparr>wav_frames = replicate 1000 0, wav_out = None\<rparr>) \<and>
   8 * (length [72, 73 :: nat] + 5) \<le> MAX_SEARCH_BYTES \<and>
   \<not> sublist DELIMITER [72, 73] \<and>
   (\<exists>st buf. inject_payload [72, 73] \<lparr>wav_frames = replicate 1000 0, wav_out = None\<rparr>
               = (Inr st, \<lparr>wav_frames = buf, wav_out = Some buf\<rparr>) \<and>
             extract_payload buf =
               \<lparr>message_length = 2, delimiter_found = True, message = [72, 73]\<rparr>)"
proof -
  have a: "\<forall>c\<in>set [72, 73]. in_alphabet c" by (simp add: in_alphabet_def)
  have b: "8 * (length [72, 73 :: nat] + 5) \<le> length (wav_frames \<lparr>wav_frames = replicate 1000 0, wav_out = None\<rparr>)"
    by simp
  have c: "8 * (length [72, 73 :: nat] + 5) \<le> MAX_SEARCH_BYTES"
    by (simp add: MAX_SEARCH_BYTES_def)
  have d: "\<not> sublist DELIMITER [72, 73]"
    by (auto dest!: sublist_length_le simp: DELIMITER_def)
  have e: "[72, 73] = [] \<or> last [72, 73] \<noteq> (35 :: nat)" by simp
  from roundtrip_law [OF a b c d e] a b c d show ?thesis
    by (simp add: numeral_2_eq_2 list_all_iff)
qed

text \<open>
  The payload \<open>'#'\<close> in a cover of 48 bytes meets the conditions of the round-trip law as
  first stated, and decodes to the empty message: the decoder stops at the first five
  \<open>'#'\<close> of the six embedded.
\<close>

theorem roundtrip_law_counterexample:
  "in_alphabet 35 \<and>
   8 * (length [35 :: nat] + 5) \<le> length (replicate 48 (0 :: byte)) \<and>
   inject_payload [35] \<lparr>wav_frames = replicate 48 0, wav_out = None\<rparr> =
     (Inr \<lparr>inject_stats.message_length = 1, bits_injected = 48, audio_capacity = 48\<rparr>,
      \<lparr>wav_frames = inject_bits (replicate 48 0) 0 (text_to_binary ([35] @ DELIMITER)),
       wav_out = Some (inject_bits (replicate 48 0) 0 (text_to_binary ([35] @ DELIMITER)))\<rparr>) \<and>
   extract_payload (inject_bits (replicate 48 0) 0 (text_to_binary ([35] @ DELIMITER))) =
     \<lparr>message_length = 0, delimiter_found = True, message = []\<rparr> \<and>
   message (extract_payload (inject_bits (replicate 48 0) 0 (text_to_binary ([35] @ DELIMITER))))
     \<noteq> [35]"
proof -
  let ?buf = "inject_bits (replicate 48 0) 0 (text_to_binary ([35] @ DELIMITER))"
  have a: "\<forall>c\<in>set [35]. in_alphabet c" by (simp add: in_alphabet_def)
  have n: "length (text_to_binary ([35] @ DELIMITER)) = 48"
    using length_bitstream [of "[35]"] by simp
  have acc: "inject_payload [35] \<lparr>wav_frames = replicate 48 0, wav_out = None\<rparr> =
     (Inr \<lparr>inject_stats.message_length = 1, bits_injected = 48, audio_capacity = 48\<rparr>,
      \<lparr>wav_frames = ?buf, wav_out = Some ?buf\<rparr>)"
    using inject_payload_accepts [of "[35]" "\<lparr>wav_frames = replicate 48 0, wav_out = None\<rparr>"] n
    by simp
  from reconstructed_text_inject_bits [OF a, of "replicate 48 0"] obtain rest where
    "reconstructed_text ?buf = [35] @ DELIMITER @ rest"
    by (auto simp: MAX_SEARCH_BYTES_def)
  then have "reconstructed_text ?buf = [] @ DELIMITER @ ([35] @ rest)"
    by (simp add: DELIMITER_def)
  moreover have "\<not> sublist DELIMITER ([] @ butlast DELIMITER)"
    using not_sublist_butlast_DELIMITER by simp
  ultimately have "extract_payload ?buf =
      \<lparr>message_length = length ([] :: pystr), delimiter_found = True, message = []\<rparr>"
    by (rule extract_payload_first_delimiter)
  with a acc show ?thesis by simp
qed

text \<open>
  Claim C2, at the input where the code leaves it. The one-character secret U+0100 has a
  required bit count of \<open>8 * (1 + 5) = 48\<close>, which a cover of 48 bytes provides, and the
  claim says that encoding succeeds. \<open>text_to_binary\<close> gives this character 9 digits, not
  the 8 of its own comment, so that the bitstream has 49 bits and the cover is refused.
  For code points below 256 the claim holds: lemma \<open>capacity_check_below_256\<close>.
\<close>

theorem capacity_check_wide_character:
  "8 * (length [256 :: nat] + 5) = length (wav_frames \<lparr>wav_frames = replicate 48 0, wav_out = None\<rparr>) \<and>
   inject_payload [256] \<lparr>wav_frames = replicate 48 0, wav_out = None\<rparr> =
     (Inl (ValueError 49 48), \<lparr>wav_frames = replicate 48 0, wav_out = None\<rparr>)"
  using inject_payload_rejects [of "\<lparr>wav_frames = replicate 48 0, wav_out = None\<rparr>" "[256]"]
  using length_bitstream_256 by simp

text \<open>
  Claim C3, at the input where the code leaves it. With the one-character payload U+0100
  and a cover of 49 zero bytes, encoding succeeds and the byte at index 48, which is not
  below \<open>8 * (1 + 5)\<close>, is changed from 0 to 1: the ninth digit of the character pushes
  the bitstream one byte further. For code points below 256 the claim holds: lemma
  \<open>frame_below_256\<close>.
\<close>

theorem frame_wide_character:
  "inject_payload [256] \<lparr>wav_frames = replicate 49 0, wav_out = None\<rparr> =
     (Inr \<lparr>inject_stats.message_length = 1, bits_injected = 49, audio_capacity = 49\<rparr>,
      \<lparr>wav_frames = inject_bits (replicate 49 0) 0 (text_to_binary ([256] @ DELIMITER)),
       wav_out = Some (inject_bits (replicate 49 0) 0 (text_to_binary ([256] @ DELIMITER)))\<rparr>) \<and>
   8 * (length [256 :: nat] + 5) \<le> (48 :: nat) \<and>
   replicate 49 (0 :: byte) ! 48 = 0 \<and>
   inject_bits (replicate 49 0) 0 (text_to_binary ([256] @ DELIMITER)) ! 48 = 1"
proof -
  let ?v = "\<lparr>wav_frames = replicate 49 0, wav_out = None\<rparr>"
  let ?bits = "text_to_binary ([256] @ DELIMITER)"
  have acc: "inject_payload [256] ?v =
     (Inr \<lparr>inject_stats.message_length = 1, bits_injected = 49, audio_capacity = 49\<rparr>,
      \<lparr>wav_frames = inject_bits (replicate 49 0) 0 ?bits,
       wav_out = Some (inject_bits (replicate 49 0) 0 ?bits)\<rparr>)"
    using inject_payload_accepts [of "[256]" ?v] length_bitstream_256 by simp
  have "inject_bits (replicate 49 0) 0 ?bits ! 48 =
        (replicate 49 0 ! 48 AND 0xFE) OR of_bool (?bits ! (48 - 0))"
    using inject_bits_nth [of 0 ?bits "replicate 49 0" 48] length_bitstream_256 by simp
  with last_bit_256 have "inject_bits (replicate 49 0) 0 ?bits ! 48 = 1" by simp
  with acc show ?thesis by simp
qed

text \<open>
  Claim C4, at the input where the code leaves it. The comment in \<open>text_to_binary\<close> says
  that each character is converted to 8-bit binary; \<open>format(ord(char), '08b')\<close> gives 9
  digits for U+0100, so that the bitstream of this one-character payload has 49 bits and
  not the 48 of \<open>8 * (len(payload) + 5)\<close>. For code points below 256 the lemmas
  \<open>length_format_08b\<close>, \<open>int_base2_format_08b\<close>, \<open>length_bitstream\<close> and
  \<open>inject_payload_embeds\<close> give what the claim says.
\<close>

theorem text_to_binary_wide_character:
  "format_08b 256 = [True, False, False, False, False, False, False, False, False] \<and>
   length (text_to_binary ([256] @ DELIMITER)) = 49 \<and>
   8 * (length [256 :: nat] + 5) = (48 :: nat)"
  using length_bitstream_256 by (simp add: format_08b_def format_b.simps)

text \<open>
  Claim C5, amended. The decoder stops at the first occurrence of the delimiter in the
  text of the scan region and returns the text before it: when that text is
  \<open>p @ DELIMITER @ s\<close> and no occurrence of the delimiter ends earlier, the message is
  \<open>p\<close>, whatever \<open>s\<close> holds.
\<close>

theorem first_delimiter_stops_scan:
  assumes "reconstructed_text frames = p @ DELIMITER @ s"
      and "\<not> sublist DELIMITER (p @ butlast DELIMITER)"
  shows "extract_payload frames =
           \<lparr>message_length = length p, delimiter_found = True, message = p\<rparr>"
  using assms by (rule extract_payload_first_delimiter)

text \<open>The text \<open>'a#####b#####'\<close>, with \<open>p = 'a'\<close> and \<open>s = 'b#####'\<close>.\<close>

theorem first_delimiter_stops_scan_witness:
  "reconstructed_text
     (frames_of_bits (text_to_binary [97, 35, 35, 35, 35, 35, 98, 35, 35, 35, 35, 35])) =
     [97] @ DELIMITER @ [98, 35, 35, 35, 35, 35] \<and>
   \<not> sublist DELIMITER ([97] @ butlast DELIMITER) \<and>
   extract_payload
     (frames_of_bits (text_to_binary [97, 35, 35, 35, 35, 35, 98, 35, 35, 35, 35, 35])) =
     \<lparr>message_length = 1, delimiter_found = True, message = [97]\<rparr>"
  using first_delimiter_stops_scan [OF two_delimiters_text two_delimiters_first]
        two_delimiters_text two_delimiters_first
  by simp

text \<open>
  A buffer whose text is \<open>'a#####b#####'\<close> holds the delimiter twice. The text before the
  last occurrence is \<open>'a#####b'\<close>; the decoder returns \<open>'a'\<close>.
\<close>

theorem last_delimiter_counterexample:
  "reconstructed_text
     (frames_of_bits (text_to_binary [97, 35, 35, 35, 35, 35, 98, 35, 35, 35, 35, 35])) =
     [97, 35, 35, 35, 35, 35, 98] @ DELIMITER \<and>
   message (extract_payload
     (frames_of_bits (text_to_binary [97, 35, 35, 35, 35, 35, 98, 35, 35, 35, 35, 35]))) = [97] \<and>
   message (extract_payload
     (frames_of_bits (text_to_binary [97, 35, 35, 35, 35, 35, 98, 35, 35, 35, 35, 35])))
     \<noteq> [97, 35, 35, 35, 35, 35, 98]"
  using extract_payload_first_delimiter [OF two_delimiters_text two_delimiters_first]
        two_delimiters_text
  by (simp add: DELIMITER_def)

text \<open>
  Claim C6. At a complete group of 8 bytes inside the scan region, a value in the
  alphabet is appended to the text (and the delimiter is looked for), and any other value
  leaves the text as it is: in both cases the scan goes on with the next group, and there
  is no failure branch. Over the whole buffer, the text of the scan region is the sequence
  of the values of its groups with the values outside the alphabet left out; the message
  is a prefix of it, and all of it when no delimiter was found.
\<close>

theorem alphabet_filtering:
  "(i < max_search \<and> i + 8 \<le> length frames \<longrightarrow>
      extract_loop frames max_search i t =
        (let char_code = int_base2 (lsb_chunk frames i) in
         if in_alphabet char_code then
           (if endswith (t @ [char_code]) DELIMITER
            then (drop_last (length DELIMITER) (t @ [char_code]), True)
            else extract_loop frames max_search (i + 8) (t @ [char_code]))
         else extract_loop frames max_search (i + 8) t)) \<and>
   reconstructed_text frames =
     filter in_alphabet
       (map (\<lambda>k. int_base2 (lsb_chunk frames (8 * k)))
            [0..<min (length frames) MAX_SEARCH_BYTES div 8]) \<and>
   prefix (message (extract_payload frames)) (reconstructed_text frames) \<and>
   (\<not> delimiter_found (extract_payload frames) \<longrightarrow>
      message (extract_payload frames) = reconstructed_text frames)"
  using extract_loop_group [of i max_search frames t] reconstructed_text_filter [of frames]
        message_prefix_reconstructed [of frames] message_not_found [of frames]
  by blast

text \<open>A group of value 0 followed by the group of \<open>'H'\<close>: the message is \<open>'H'\<close>.\<close>

theorem alphabet_filtering_witness:
  "(0 :: nat) < 16 \<and>
   0 + 8 \<le> length (frames_of_bits (replicate 8 False @ text_to_binary [72])) \<and>
   int_base2 (lsb_chunk (frames_of_bits (replicate 8 False @ text_to_binary [72])) 0) = 0 \<and>
   \<not> in_alphabet 0 \<and>
   extract_loop (frames_of_bits (replicate 8 False @ text_to_binary [72])) 16 0 [] =
     extract_loop (frames_of_bits (replicate 8 False @ text_to_binary [72])) 16 8 [] \<and>
   message (extract_payload (frames_of_bits (replicate 8 False @ text_to_binary [72]))) = [72] \<and>
   \<not> delimiter_found (extract_payload (frames_of_bits (replicate 8 False @ text_to_binary [72])))"
proof -
  let ?fr = "frames_of_bits (replicate 8 False @ text_to_binary [72])"
  have len: "0 + 8 \<le> length ?fr" by (simp add: frames_of_bits_def)
  have "lsb_chunk ?fr 0 = replicate 8 False @ []"
    by (simp add: lsb_chunk_eq lsb_string_frames_of_bits)
  then have c: "int_base2 (lsb_chunk ?fr 0) = 0"
    by (simp only: int_base2_pad) (simp add: int_base2_def)
  have na: "\<not> in_alphabet 0" by (simp add: in_alphabet_def)
  have nd: "\<not> sublist DELIMITER (reconstructed_text ?fr)"
    unfolding nul_then_H_text by (auto dest!: sublist_length_le simp: DELIMITER_def)
  then have "scan_text [] (reconstructed_text ?fr) = (reconstructed_text ?fr, False)"
    by (rule scan_text_not_found)
  then have nf: "\<not> delimiter_found (extract_payload ?fr)"
    by (simp add: extract_payload_reconstructed)
  from alphabet_filtering [of 0 16 ?fr "[]"] len c na nf nul_then_H_text
  show ?thesis by (simp add: Let_def)
qed

text \<open>
  Claim C7. When the text of the scan region never ends in the delimiter, that is, when
  the delimiter does not occur in it, the decoder returns normally: the message is the
  whole accumulated text and \<open>delimiter_found\<close> is false. The decoder has no failure
  branch at all.
\<close>

theorem delimiter_absent_not_an_error:
  assumes "\<not> sublist DELIMITER (reconstructed_text frames)"
  shows "extract_payload frames =
           \<lparr>message_length = length (reconstructed_text frames),
            delimiter_found = False,
            message = reconstructed_text frames\<rparr>"
  using scan_text_not_found [OF assms]
  by (simp add: extract_payload_reconstructed)

text \<open>A buffer of 16 bytes that holds \<open>'HI'\<close> and no delimiter.\<close>

theorem delimiter_absent_not_an_error_witness:
  "\<not> sublist DELIMITER (reconstructed_text (frames_of_bits (text_to_binary [72, 73]))) \<and>
   extract_payload (frames_of_bits (text_to_binary [72, 73])) =
     \<lparr>message_length = 2, delimiter_found = False, message = [72, 73]\<rparr>"
proof -
  have r: "reconstructed_text (frames_of_bits (text_to_binary [72, 73])) = [72, 73]"
    by (rule reconstructed_text_frames_of_bits)
       (simp_all add: in_alphabet_def MAX_SEARCH_BYTES_def)
  have n: "\<not> sublist DELIMITER (reconstructed_text (frames_of_bits (text_to_binary [72, 73])))"
    unfolding r by (auto dest!: sublist_length_le simp: DELIMITER_def)
  from delimiter_absent_not_an_error [OF n] n show ?thesis
    by (simp add: r)
qed

text \<open>
  Claim C8. The result of the decoder is that of the buffer cut after the last complete
  group of 8 bytes below \<open>min(len(frames), MAX_SEARCH_BYTES)\<close>: no byte from there on
  influences it, and a trailing partial group is discarded. The scan is a total function
  (its termination is proved with the definition of \<open>extract_loop\<close>). In particular a
  buffer of \<open>MAX_SEARCH_BYTES + 1000\<close> bytes whose text holds no delimiter is decoded as
  its first \<open>MAX_SEARCH_BYTES\<close> bytes are, with \<open>delimiter_found\<close> false.
\<close>

theorem scan_bound:
  "extract_payload frames =
     extract_payload (take (8 * (min (length frames) MAX_SEARCH_BYTES div 8)) frames) \<and>
   (length frames' = length frames \<and>
    take (8 * (min (length frames) MAX_SEARCH_BYTES div 8)) frames' =
    take (8 * (min (length frames) MAX_SEARCH_BYTES div 8)) frames \<longrightarrow>
      extract_payload frames' = extract_payload frames) \<and>
   (length frames = MAX_SEARCH_BYTES + 1000 \<and>
    \<not> sublist DELIMITER (binary_to_text (lsb_string frames)) \<longrightarrow>
      extract_payload frames = extract_payload (take MAX_SEARCH_BYTES frames) \<and>
      \<not> delimiter_found (extract_payload frames))"
proof (intro conjI impI)
  show "extract_payload frames =
     extract_payload (take (8 * (min (length frames) MAX_SEARCH_BYTES div 8)) frames)"
    by (rule extract_payload_cong [symmetric]) (rule reconstructed_text_take)
next
  assume "length frames' = length frames \<and>
    take (8 * (min (length frames) MAX_SEARCH_BYTES div 8)) frames' =
    take (8 * (min (length frames) MAX_SEARCH_BYTES div 8)) frames"
  then have "reconstructed_text frames' = reconstructed_text frames"
    using reconstructed_text_groups [of frames] reconstructed_text_groups [of frames']
    by simp
  then show "extract_payload frames' = extract_payload frames"
    by (rule extract_payload_cong)
next
  assume a: "length frames = MAX_SEARCH_BYTES + 1000 \<and>
    \<not> sublist DELIMITER (binary_to_text (lsb_string frames))"
  show "extract_payload frames = extract_payload (take MAX_SEARCH_BYTES frames)"
    by (rule extract_payload_cong [symmetric]) (rule reconstructed_text_take_MAX)
  from a reconstructed_text_prefix [of frames]
  have "\<not> sublist DELIMITER (reconstructed_text frames)"
    by (auto simp: prefix_def sublist_append)
  then have "scan_text [] (reconstructed_text frames) = (reconstructed_text frames, False)"
    by (rule scan_text_not_found)
  then show "\<not> delimiter_found (extract_payload frames)"
    by (simp add: extract_payload_reconstructed)
qed

text \<open>
  Two buffers of 10 bytes that differ in their last two bytes only, and a buffer of
  10001000 zero bytes.
\<close>

theorem scan_bound_witness:
  "length (replicate 8 0 @ [1, 1 :: byte]) = length (replicate 8 0 @ [0, 0 :: byte]) \<and>
   take (8 * (min (length (replicate 8 0 @ [0, 0 :: byte])) MAX_SEARCH_BYTES div 8))
        (replicate 8 0 @ [1, 1 :: byte]) =
   take (8 * (min (length (replicate 8 0 @ [0, 0 :: byte])) MAX_SEARCH_BYTES div 8))
        (replicate 8 0 @ [0, 0 :: byte]) \<and>
   extract_payload (replicate 8 0 @ [1, 1]) = extract_payload (replicate 8 0 @ [0, 0]) \<and>
   length (replicate 10001000 (0 :: byte)) = MAX_SEARCH_BYTES + 1000 \<and>
   \<not> sublist DELIMITER (binary_to_text (lsb_string (replicate 10001000 0))) \<and>
   extract_payload (replicate 10001000 0) =
     extract_payload (take MAX_SEARCH_BYTES (replicate 10001000 0)) \<and>
   \<not> delimiter_found (extract_payload (replicate 10001000 0))"
proof -
  have a: "length (replicate 8 0 @ [1, 1 :: byte]) = length (replicate 8 0 @ [0, 0 :: byte])"
    by simp
  have b: "take (8 * (min (length (replicate 8 0 @ [0, 0 :: byte])) MAX_SEARCH_BYTES div 8))
        (replicate 8 0 @ [1, 1 :: byte]) =
     take (8 * (min (length (replicate 8 0 @ [0, 0 :: byte])) MAX_SEARCH_BYTES div 8))
        (replicate 8 0 @ [0, 0 :: byte])"
    by (simp add: MAX_SEARCH_BYTES_def)
  have c: "length (replicate 10001000 (0 :: byte)) = MAX_SEARCH_BYTES + 1000"
    by (simp add: MAX_SEARCH_BYTES_def)
  have "lsb_string (replicate 10001000 0) = replicate 10001000 False"
    by (simp add: lsb_string_def)
  then have d: "\<not> sublist DELIMITER (binary_to_text (lsb_string (replicate 10001000 0)))"
    by (simp add: binary_to_text_zeros DELIMITER_def)
  from scan_bound [of "replicate 8 0 @ [0, 0]" "replicate 8 0 @ [1, 1]"] a b
  have "extract_payload (replicate 8 0 @ [1, 1]) = extract_payload (replicate 8 0 @ [0, 0])"
    by blast
  moreover from scan_bound [of "replicate 10001000 0"] c d
  have "extract_payload (replicate 10001000 0) =
          extract_payload (take MAX_SEARCH_BYTES (replicate 10001000 0)) \<and>
        \<not> delimiter_found (extract_payload (replicate 10001000 0))"
    by blast
  ultimately show ?thesis using a b c d by blast
qed




text \<open>
  Claim C10. For every buffer, the returned message does not contain the delimiter at
  any position, and each of its characters lies in the alphabet.
\<close>

theorem message_invariant:
  "\<not> sublist DELIMITER (message (extract_payload frames)) \<and>
   (\<forall>c\<in>set (message (extract_payload frames)). in_alphabet c)"
proof -
  let ?R = "reconstructed_text frames"
  have m: "message (extract_payload frames) = fst (scan_text [] ?R)"
    by (simp add: extract_payload_reconstructed split: prod.splits)
  have "\<not> sublist DELIMITER (fst (scan_text [] ?R))"
    using DELIMITER_not_Nil by (rule scan_text_no_delimiter)
  moreover have "\<forall>c\<in>set (fst (scan_text [] ?R)). in_alphabet c"
    using scan_text_set [of "[]" ?R]
    by (auto simp: reconstructed_text_def dest: in_alphabet_binary_to_text)
  ultimately show ?thesis by (simp add: m)
qed

text \<open>The buffer that holds \<open>'HI#####'\<close>: the message is \<open>'HI'\<close>.\<close>

theorem message_invariant_witness:
  "message (extract_payload (frames_of_bits (text_to_binary [72, 73, 35, 35, 35, 35, 35]))) = [72, 73] \<and>
   \<not> sublist DELIMITER
        (message (extract_payload (frames_of_bits (text_to_binary [72, 73, 35, 35, 35, 35, 35])))) \<and>
   list_all in_alphabet
     (message (extract_payload (frames_of_bits (text_to_binary [72, 73, 35, 35, 35, 35, 35]))))"
proof -
  let ?fr = "frames_of_bits (text_to_binary [72, 73, 35, 35, 35, 35, 35])"
  have "reconstructed_text ?fr = [72, 73, 35, 35, 35, 35, 35]"
    by (rule reconstructed_text_frames_of_bits)
       (simp_all add: in_alphabet_def MAX_SEARCH_BYTES_def)
  then have "reconstructed_text ?fr = [72, 73] @ DELIMITER @ []"
    by (simp add: DELIMITER_def)
  moreover have "\<not> sublist DELIMITER ([72, 73] @ butlast DELIMITER)"
    by (rule no_early_delimiter)
       (auto dest!: sublist_length_le simp: DELIMITER_def)
  ultimately have "extract_payload ?fr =
      \<lparr>message_length = length [72, 73 :: nat], delimiter_found = True, message = [72, 73]\<rparr>"
    by (rule extract_payload_first_delimiter)
  with message_invariant [of ?fr] show ?thesis by (simp add: list_all_iff)
qed

end
